theory Spec2Isabelle
  imports Main "HOL-Library.Word" "HOL-Library.AList" "HOL-Library.Multiset"
begin

section \<open>JavaScript strings\<close>

text \<open>
  A JavaScript string is a sequence of 16-bit code units; \<open>length\<close> and \<open>slice\<close> count
  code units. Terminal ids are strings that the program only compares for equality, so
  they are kept as plain \<open>string\<close>s.
\<close>

type_synonym jsstring = "16 word list"

definition js :: "string \<Rightarrow> jsstring" where
  "js s = map (\<lambda>c. of_nat (of_char c)) s"

text \<open>
  \<open>s.slice(start)\<close> for an integer \<open>start\<close>: a negative start counts from the end and is
  clamped at 0, a non-negative one is clamped at the length. \<open>-0\<close> is \<open>0\<close>.
\<close>

definition slice_from :: "int \<Rightarrow> 'a list \<Rightarrow> 'a list" where
  "slice_from start s =
     (let len = int (length s);
          from = (if start < 0 then max (len + start) 0 else min start len)
      in drop (nat from) s)"

text \<open>The last \<open>k\<close> elements of a list (all of it when it is shorter).\<close>

definition lastn :: "nat \<Rightarrow> 'a list \<Rightarrow> 'a list" where
  "lastn k xs = drop (length xs - k) xs"

section \<open>stripAnsi\<close>

text \<open>
  \<^verbatim>\<open>text.replace(/\x1B(?:[@-Z\\-_]|\[[0-?]*[ -/]*[@-~])/g, '')\<close>

  \<open>ansi_match_len s\<close> is the length of the match of that expression at the start of \<open>s\<close>.
  The three classes of the second alternative are pairwise disjoint, and \<open>[\<close> is in
  neither range of the first alternative, so the greedy match is the only one.
  The global replace scans from the left, deletes a match and goes on behind it.
\<close>

definition in_range :: "16 word \<Rightarrow> 16 word \<Rightarrow> 16 word \<Rightarrow> bool" where
  "in_range lo hi c = (lo \<le> c \<and> c \<le> hi)"

definition csi_len :: "jsstring \<Rightarrow> nat option" where
  "csi_len s =
     (let params = takeWhile (in_range 0x30 0x3F) s;
          s1 = dropWhile (in_range 0x30 0x3F) s;
          inter = takeWhile (in_range 0x20 0x2F) s1;
          s2 = dropWhile (in_range 0x20 0x2F) s1
      in case s2 of
           [] \<Rightarrow> None
         | c # _ \<Rightarrow> if in_range 0x40 0x7E c
                    then Some (length params + length inter + 1) else None)"

fun ansi_match_len :: "jsstring \<Rightarrow> nat option" where
  "ansi_match_len (e # c # r) =
     (if e \<noteq> 0x1B then None
      else if in_range 0x40 0x5A c \<or> in_range 0x5C 0x5F c then Some 2
      else if c = 0x5B then map_option (\<lambda>n. n + 2) (csi_len r)
      else None)"
| "ansi_match_len _ = None"

text \<open>\<open>strip_skip k s\<close>: \<open>k\<close> code units of a match are still to be deleted.\<close>

fun strip_skip :: "nat \<Rightarrow> jsstring \<Rightarrow> jsstring" where
  "strip_skip _ [] = []"
| "strip_skip (Suc k) (c # r) = strip_skip k r"
| "strip_skip 0 (c # r) =
     (case ansi_match_len (c # r) of
        Some n \<Rightarrow> strip_skip (n - 1) r
      | None \<Rightarrow> c # strip_skip 0 r)"

definition stripAnsi :: "jsstring \<Rightarrow> jsstring" where
  "stripAnsi text = strip_skip 0 text"

text \<open>
  The strings the expression matches, written from the expression itself and not from the
  matcher above: ESC and one code unit of \<open>[@-Z\-_]\<close>, or ESC, \<open>[\<close>, any number of
  \<open>[0-?]\<close>, any number of \<open>[ -/]\<close> and one code unit of \<open>[@-~]\<close>.
\<close>

definition control_sequence :: "jsstring \<Rightarrow> bool" where
  "control_sequence s =
     ((\<exists>c. s = [0x1B, c] \<and> (in_range 0x40 0x5A c \<or> in_range 0x5C 0x5F c))
      \<or> (\<exists>p i f. s = [0x1B, 0x5B] @ p @ i @ [f]
            \<and> list_all (in_range 0x30 0x3F) p \<and> list_all (in_range 0x20 0x2F) i
            \<and> in_range 0x40 0x7E f))"

section \<open>PromptBuffer\<close>

record PromptBuffer =
  buffer :: jsstring
  maxSize :: int

definition PromptBuffer_new :: "int \<Rightarrow> PromptBuffer" where
  "PromptBuffer_new n = \<lparr>buffer = [], maxSize = n\<rparr>"

definition PromptBuffer_default :: PromptBuffer where
  "PromptBuffer_default = PromptBuffer_new 500"

definition PromptBuffer_append :: "jsstring \<Rightarrow> PromptBuffer \<Rightarrow> PromptBuffer" where
  "PromptBuffer_append data b =
     (let b1 = b\<lparr>buffer := buffer b @ data\<rparr>
      in if int (length (buffer b1)) > maxSize b1
         then b1\<lparr>buffer := slice_from (- maxSize b1) (buffer b1)\<rparr>
         else b1)"

definition getContent :: "PromptBuffer \<Rightarrow> jsstring" where
  "getContent b = buffer b"

definition PromptBuffer_clear :: "PromptBuffer \<Rightarrow> PromptBuffer" where
  "PromptBuffer_clear b = b\<lparr>buffer := []\<rparr>"

text \<open>A sequence of appends, in order.\<close>

definition append_all :: "jsstring list \<Rightarrow> PromptBuffer \<Rightarrow> PromptBuffer" where
  "append_all chunks b = foldl (\<lambda>b c. PromptBuffer_append c b) b chunks"

section \<open>Regular expression objects\<close>

text \<open>
  The regular-expression engine belongs to the JavaScript runtime, not to the program, so
  it is a parameter: \<open>rx_valid src\<close> says whether \<open>new RegExp(src)\<close> returns (otherwise it
  throws a SyntaxError), and \<open>rx_exec src flags input start\<close> is the end index of the first
  match found from index \<open>start\<close> on, if there is one.

  A RegExp object carries its source, its flags and the mutable \<open>lastIndex\<close>.
  \<open>test\<close> reads and writes \<open>lastIndex\<close> only under the flags \<open>g\<close> and \<open>y\<close>.
\<close>

record rx_engine =
  rx_valid :: "jsstring \<Rightarrow> bool"
  rx_exec :: "jsstring \<Rightarrow> string \<Rightarrow> jsstring \<Rightarrow> nat \<Rightarrow> nat option"

record RegExp =
  source :: jsstring
  flags :: string
  lastIndex :: nat

datatype SyntaxError = SyntaxError

definition RegExp_new :: "rx_engine \<Rightarrow> jsstring \<Rightarrow> SyntaxError + RegExp" where
  "RegExp_new E src =
     (if rx_valid E src then Inr \<lparr>source = src, flags = [], lastIndex = 0\<rparr>
      else Inl SyntaxError)"

definition stateful :: "RegExp \<Rightarrow> bool" where
  "stateful r = (CHR ''g'' \<in> set (flags r) \<or> CHR ''y'' \<in> set (flags r))"

definition RegExp_test :: "rx_engine \<Rightarrow> RegExp \<Rightarrow> jsstring \<Rightarrow> bool \<times> RegExp" where
  "RegExp_test E r s =
     (let start = (if stateful r then lastIndex r else 0)
      in if start > length s
         then (False, if stateful r then r\<lparr>lastIndex := 0\<rparr> else r)
         else (case rx_exec E (source r) (flags r) s start of
                 None \<Rightarrow> (False, if stateful r then r\<lparr>lastIndex := 0\<rparr> else r)
               | Some e \<Rightarrow> (True, if stateful r then r\<lparr>lastIndex := e\<rparr> else r)))"

text \<open>\<open>patterns.some((pattern) => pattern.test(tail))\<close>: stops at the first hit.\<close>

fun some_test :: "rx_engine \<Rightarrow> RegExp list \<Rightarrow> jsstring \<Rightarrow> bool \<times> RegExp list" where
  "some_test E [] s = (False, [])"
| "some_test E (r # rs) s =
     (case RegExp_test E r s of
        (True, r') \<Rightarrow> (True, r' # rs)
      | (False, r') \<Rightarrow> (case some_test E rs s of (b, rs') \<Rightarrow> (b, r' # rs')))"

subsection \<open>DEFAULT_PROMPT_PATTERNS\<close>

definition bs :: jsstring where
  "bs = [0x5C]"

definition rx :: "jsstring \<Rightarrow> string \<Rightarrow> RegExp" where
  "rx src fl = \<lparr>source = src, flags = fl, lastIndex = 0\<rparr>"

definition line_start :: jsstring where
  "line_start = js ''(?:^|'' @ bs @ js ''n|'' @ bs @ js ''r)''"

definition trailing_ws :: jsstring where
  "trailing_ws = bs @ js ''s*$''"

definition colon_end :: jsstring where
  "colon_end = bs @ js ''s*:?'' @ bs @ js ''s*$''"

definition question_end :: jsstring where
  "question_end = bs @ js ''??'' @ bs @ js ''s*$''"

definition DEFAULT_PROMPT_PATTERNS :: "RegExp list" where
  "DEFAULT_PROMPT_PATTERNS =
     [rx (line_start @ js ''>'' @ trailing_ws) [],
      rx (line_start @ js ''>>>'' @ trailing_ws) [],
      rx (line_start @ bs @ js ''w+>'' @ trailing_ws) ''i'',
      rx (bs @ js ''([Yy]'' @ bs @ js ''/[Nn]'' @ bs @ js '')'' @ colon_end) [],
      rx (bs @ js ''[[Yy]'' @ bs @ js ''/[Nn]'' @ bs @ js '']'' @ colon_end) [],
      rx (bs @ js ''(yes'' @ bs @ js ''/no'' @ bs @ js '')'' @ colon_end) ''i'',
      rx (js ''[Cc]onfirm'' @ question_end) [],
      rx (js ''[Aa]pply'' @ question_end) [],
      rx (js ''[Cc]ontinue'' @ question_end) [],
      rx (js ''[Pp]roceed'' @ question_end) [],
      rx (js ''[Aa]ccept'' @ question_end) [],
      rx (js ''['' @ [0x276F, 0x203A] @ js ''>]'' @ bs @ js ''s*'' @ bs @ js ''d+'' @ bs @ js ''.'') [],
      rx (js ''~'' @ bs @ js ''/'' @ bs @ js ''.claude'' @ bs @ js ''/plans'' @ bs @ js ''/.*''
            @ bs @ js ''.md'') [],
      rx (js ''[Ww]ould you like to [^?]*'' @ bs @ js ''?'') [],
      rx (js ''[Pp]ress enter to confirm'') ''i'',
      rx (js ''esc to cancel'') ''i'']"

section \<open>PromptDetector\<close>

record PromptDetectorConfig =
  enabled :: bool
  showDelay :: nat
  customPatterns :: "jsstring list"

text \<open>A timeout of the host's timer queue: its handle, the time it is due, and the
  terminal id its callback passes to \<open>checkForPrompt\<close>.\<close>

record timeout =
  handle :: nat
  due :: nat
  target :: string

text \<open>
  The first five fields are the fields of the class. \<open>timers\<close> is an association list in
  insertion order, as a JavaScript \<open>Map\<close> is. The others are the environment the class
  acts on: the host's clock (milliseconds) and timer queue (\<open>setTimeout\<close>,
  \<open>clearTimeout\<close>), the calls of the \<open>onNotificationChange\<close> callback in order, and a
  log of the terminal ids whose pattern set was evaluated. \<open>showDelay\<close> is a whole number
  of milliseconds, a timeout is due exactly that long after \<open>setTimeout\<close>, and the
  callback does not call back into the detector.
\<close>

record PromptDetector =
  buffers :: "string \<rightharpoonup> PromptBuffer"
  timers :: "(string \<times> nat) list"
  waitingState :: "string \<rightharpoonup> bool"
  patterns :: "RegExp list"
  config :: PromptDetectorConfig
  clock :: nat
  scheduled :: "timeout list"
  nextHandle :: nat
  notifications :: "(string \<times> bool) list"
  evaluations :: "string list"

fun push_compiled :: "rx_engine \<Rightarrow> RegExp list \<Rightarrow> jsstring list \<Rightarrow> RegExp list" where
  "push_compiled E ps [] = ps"
| "push_compiled E ps (p # rest) =
     (case RegExp_new E p of
        Inr r \<Rightarrow> push_compiled E (ps @ [r]) rest
      | Inl _ \<Rightarrow> push_compiled E ps rest)"

definition buildPatterns :: "rx_engine \<Rightarrow> jsstring list \<Rightarrow> RegExp list" where
  "buildPatterns E custom = push_compiled E DEFAULT_PROMPT_PATTERNS custom"

definition PromptDetector_new :: "rx_engine \<Rightarrow> PromptDetectorConfig \<Rightarrow> PromptDetector" where
  "PromptDetector_new E cfg =
     \<lparr>buffers = Map.empty, timers = [], waitingState = Map.empty,
      patterns = buildPatterns E (customPatterns cfg), config = cfg,
      clock = 0, scheduled = [], nextHandle = 0, notifications = [], evaluations = []\<rparr>"

definition updateConfig :: "rx_engine \<Rightarrow> PromptDetectorConfig \<Rightarrow> PromptDetector \<Rightarrow> PromptDetector" where
  "updateConfig E cfg d =
     (let d1 = d\<lparr>config := cfg\<rparr>;
          newPatterns = buildPatterns E (customPatterns cfg);
          d2 = d1\<lparr>patterns := []\<rparr>
      in d2\<lparr>patterns := patterns d2 @ newPatterns\<rparr>)"

definition clearTimeout :: "nat \<Rightarrow> PromptDetector \<Rightarrow> PromptDetector" where
  "clearTimeout h d = d\<lparr>scheduled := filter (\<lambda>t. handle t \<noteq> h) (scheduled d)\<rparr>"

definition setTimeout :: "string \<Rightarrow> nat \<Rightarrow> PromptDetector \<Rightarrow> nat \<times> PromptDetector" where
  "setTimeout i delay d =
     (nextHandle d,
      d\<lparr>scheduled := scheduled d @ [\<lparr>handle = nextHandle d, due = clock d + delay, target = i\<rparr>],
        nextHandle := Suc (nextHandle d)\<rparr>)"

definition currentState :: "PromptDetector \<Rightarrow> string \<Rightarrow> bool" where
  "currentState d i = (case waitingState d i of None \<Rightarrow> False | Some b \<Rightarrow> b)"

definition setWaitingState :: "string \<Rightarrow> bool \<Rightarrow> PromptDetector \<Rightarrow> PromptDetector" where
  "setWaitingState i isWaiting d =
     (if currentState d i \<noteq> isWaiting
      then d\<lparr>waitingState := (waitingState d)(i \<mapsto> isWaiting),
             notifications := notifications d @ [(i, isWaiting)]\<rparr>
      else d)"

definition clearTimer :: "string \<Rightarrow> PromptDetector \<Rightarrow> PromptDetector" where
  "clearTimer i d =
     (case map_of (timers d) i of
        None \<Rightarrow> d
      | Some h \<Rightarrow> (clearTimeout h d)\<lparr>timers := AList.delete i (timers d)\<rparr>)"

definition onData :: "string \<Rightarrow> jsstring \<Rightarrow> PromptDetector \<Rightarrow> PromptDetector" where
  "onData i data d =
     (if \<not> enabled (config d) then d
      else
        let buf = (case buffers d i of None \<Rightarrow> PromptBuffer_default | Some b \<Rightarrow> b);
            d2 = d\<lparr>buffers := (buffers d)(i \<mapsto> PromptBuffer_append data buf)\<rparr>;
            d3 = clearTimer i d2;
            d4 = (if waitingState d3 i = Some True then setWaitingState i False d3 else d3);
            (h, d5) = setTimeout i (showDelay (config d4)) d4
        in d5\<lparr>timers := AList.update i h (timers d5)\<rparr>)"

definition onUserInput :: "string \<Rightarrow> PromptDetector \<Rightarrow> PromptDetector" where
  "onUserInput i d =
     (let d1 = clearTimer i d;
          d2 = setWaitingState i False d1
      in case buffers d2 i of
           None \<Rightarrow> d2
         | Some b \<Rightarrow> d2\<lparr>buffers := (buffers d2)(i \<mapsto> PromptBuffer_clear b)\<rparr>)"

definition checkForPrompt :: "rx_engine \<Rightarrow> string \<Rightarrow> PromptDetector \<Rightarrow> PromptDetector" where
  "checkForPrompt E i d =
     (case buffers d i of
        None \<Rightarrow> d
      | Some b \<Rightarrow>
          let content = stripAnsi (getContent b);
              tail = slice_from (- 200) content;
              (isWaiting, ps) = some_test E (patterns d) tail
          in setWaitingState i isWaiting
               (d\<lparr>patterns := ps, evaluations := evaluations d @ [i]\<rparr>))"

definition removeTerminal :: "string \<Rightarrow> PromptDetector \<Rightarrow> PromptDetector" where
  "removeTerminal i d =
     (let d1 = clearTimer i d
      in d1\<lparr>buffers := (buffers d1)(i := None), waitingState := (waitingState d1)(i := None)\<rparr>)"

definition dispose :: "PromptDetector \<Rightarrow> PromptDetector" where
  "dispose d =
     (let d1 = foldl (\<lambda>d h. clearTimeout h d) d (map snd (timers d))
      in d1\<lparr>timers := [], buffers := Map.empty, waitingState := Map.empty\<rparr>)"

subsection \<open>The event loop\<close>

text \<open>
  Everything that can happen to a detector: a call of one of its public methods, time
  passing, or a scheduled timeout firing. A timeout fires only while it is in the
  queue and not before it is due; its callback is \<open>checkForPrompt\<close>.
\<close>

datatype event =
    Output string jsstring
  | UserInput string
  | Removed string
  | Reconfig PromptDetectorConfig
  | Disposed
  | Elapse nat
  | TimerFires nat

definition fire :: "rx_engine \<Rightarrow> nat \<Rightarrow> PromptDetector \<Rightarrow> PromptDetector" where
  "fire E h d =
     (case find (\<lambda>t. handle t = h) (scheduled d) of
        None \<Rightarrow> d
      | Some t \<Rightarrow> if due t \<le> clock d
                  then checkForPrompt E (target t) (clearTimeout h d)
                  else d)"

fun apply_event :: "rx_engine \<Rightarrow> event \<Rightarrow> PromptDetector \<Rightarrow> PromptDetector" where
  "apply_event E (Output i data) d = onData i data d"
| "apply_event E (UserInput i) d = onUserInput i d"
| "apply_event E (Removed i) d = removeTerminal i d"
| "apply_event E (Reconfig cfg) d = updateConfig E cfg d"
| "apply_event E Disposed d = dispose d"
| "apply_event E (Elapse n) d = d\<lparr>clock := clock d + n\<rparr>"
| "apply_event E (TimerFires h) d = fire E h d"

definition run :: "rx_engine \<Rightarrow> event list \<Rightarrow> PromptDetector \<Rightarrow> PromptDetector" where
  "run E evs d = foldl (\<lambda>d ev. apply_event E ev d) d evs"

inductive reachable :: "rx_engine \<Rightarrow> PromptDetector \<Rightarrow> bool" for E where
  reachable_new: "reachable E (PromptDetector_new E cfg)"
| reachable_step: "reachable E d \<Longrightarrow> reachable E (apply_event E ev d)"

text \<open>The timeouts in the queue whose callback is for terminal \<open>i\<close>.\<close>

definition pendingFor :: "PromptDetector \<Rightarrow> string \<Rightarrow> timeout list" where
  "pendingFor d i = filter (\<lambda>t. target t = i) (scheduled d)"

text \<open>The notifications and the evaluations of terminal \<open>i\<close>.\<close>

definition notificationsFor :: "PromptDetector \<Rightarrow> string \<Rightarrow> (string \<times> bool) list" where
  "notificationsFor d i = filter (\<lambda>n. fst n = i) (notifications d)"

definition evaluationsOf :: "PromptDetector \<Rightarrow> string \<Rightarrow> nat" where
  "evaluationsOf d i = length (filter (\<lambda>j. j = i) (evaluations d))"

subsection \<open>Bursts of output\<close>


text \<open>\<open>no_output i evs\<close>: the trace has no output event of terminal \<open>i\<close>.\<close>

fun no_output :: "string \<Rightarrow> event list \<Rightarrow> bool" where
  "no_output i [] = True"
| "no_output i (Output j c # evs) = (j \<noteq> i \<and> no_output i evs)"
| "no_output i (ev # evs) = no_output i evs"

fun is_fire :: "event \<Rightarrow> bool" where
  "is_fire (TimerFires h) = True"
| "is_fire ev = False"

text \<open>
  The bookkeeping of the timers: every timeout in the queue is the one recorded in
  \<open>timers\<close> for its terminal, handles are never reused, and no handle is recorded twice.
\<close>

definition timers_ok :: "PromptDetector \<Rightarrow> bool" where
  "timers_ok d =
     (distinct (map fst (timers d)) \<and> distinct (map snd (timers d))
      \<and> list_all (\<lambda>p. snd p < nextHandle d) (timers d)
      \<and> distinct (map handle (scheduled d))
      \<and> list_all (\<lambda>t. (target t, handle t) \<in> set (timers d)) (scheduled d))"

subsection \<open>An engine for examples\<close>

text \<open>
  A stand-in for the runtime's engine, used at concrete inputs only. It accepts a source
  made of letters, digits, spaces and colons, which JavaScript compiles to a pattern that
  matches that text literally, and it rejects every other source, such as \<open>(\<close> and \<open>[\<close>,
  which JavaScript rejects as well. Matching is a search for the source text; the examples
  use inputs on which no built-in pattern matches in JavaScript either.
\<close>

definition plain_unit :: "16 word \<Rightarrow> bool" where
  "plain_unit c =
     (in_range 0x30 0x39 c \<or> in_range 0x41 0x5A c \<or> in_range 0x61 0x7A c
      \<or> c = 0x20 \<or> c = 0x3A)"

fun literal_search :: "jsstring \<Rightarrow> jsstring \<Rightarrow> nat \<Rightarrow> nat option" where
  "literal_search p [] k = (if p = [] then Some k else None)"
| "literal_search p (c # s) k =
     (if take (length p) (c # s) = p then Some (k + length p)
      else literal_search p s (Suc k))"

definition example_engine :: rx_engine where
  "example_engine =
     \<lparr>rx_valid = list_all plain_unit,
      rx_exec = (\<lambda>src fl input start. literal_search src (drop start input) start)\<rparr>"

definition example_config :: PromptDetectorConfig where
  "example_config =
     \<lparr>enabled = True, showDelay = 500, customPatterns = [js ''('', js ''Password:'']\<rparr>"

subsection \<open>The lifetime of a session\<close>

text \<open>\<open>lives i evs\<close>: the trace neither removes terminal \<open>i\<close> nor disposes of the detector.\<close>

fun lives :: "string \<Rightarrow> event list \<Rightarrow> bool" where
  "lives i [] = True"
| "lives i (Removed j # evs) = (j \<noteq> i \<and> lives i evs)"
| "lives i (Disposed # evs) = False"
| "lives i (ev # evs) = lives i evs"

text \<open>\<open>alternates b bs\<close>: starting from state \<open>b\<close>, each state in \<open>bs\<close> differs from the one
  before it.\<close>

fun alternates :: "bool \<Rightarrow> bool list \<Rightarrow> bool" where
  "alternates b [] = True"
| "alternates b (x # xs) = (x \<noteq> b \<and> alternates x xs)"

subsection \<open>Example states\<close>

text \<open>Terminal \<open>t1\<close> has printed \<open>Password:\<close>; then the delay has passed and the timeout has
  fired; then the detector has been disabled.\<close>

definition example_prompted :: PromptDetector where
  "example_prompted =
     run example_engine [Output ''t1'' (js ''Password:'')]
       (PromptDetector_new example_engine example_config)"

definition example_waiting :: PromptDetector where
  "example_waiting = run example_engine [Elapse 500, TimerFires 0] example_prompted"

definition example_disabled :: PromptDetector where
  "example_disabled =
     run example_engine [Reconfig (example_config\<lparr>enabled := False\<rparr>)] example_waiting"

text \<open>Terminal \<open>t1\<close> has printed \<open>Password:\<close> with a bold-on sequence inside the word.\<close>

definition example_coloured :: PromptDetector where
  "example_coloured =
     run example_engine [Output ''t1'' (js ''Pass'' @ [0x1B, 0x5B, 0x31, 0x6D] @ js ''word:'')]
       (PromptDetector_new example_engine example_config)"

section \<open>The webview's terminal table\<close>

text \<open>
  \<open>media/main.ts\<close>. The xterm terminal, its fit addon and the DOM element of an entry are
  objects of the browser; the model keeps their identities (allocated in order) and the
  list of children of the terminals container. \<open>createTerminalElement\<close> makes four
  objects: the container element, the terminal, the fit addon and the web-links addon,
  which no entry refers to.
\<close>

record TerminalEntry =
  terminal :: nat
  fitAddon :: nat
  element :: nat

record TerminalState =
  terminals :: "string \<rightharpoonup> TerminalEntry"
  activeTerminalId :: "string option"

definition TerminalState_get :: "string \<Rightarrow> TerminalState \<Rightarrow> TerminalEntry option" where
  "TerminalState_get i s = terminals s i"

definition TerminalState_set :: "string \<Rightarrow> TerminalEntry \<Rightarrow> TerminalState \<Rightarrow> TerminalState" where
  "TerminalState_set i entry s = s\<lparr>terminals := (terminals s)(i \<mapsto> entry)\<rparr>"

record WebviewContext =
  state :: TerminalState
  terminalsContainer :: "nat list"
  nextObject :: nat

definition WebviewContext_new :: WebviewContext where
  "WebviewContext_new =
     \<lparr>state = \<lparr>terminals = Map.empty, activeTerminalId = None\<rparr>,
      terminalsContainer = [], nextObject = 0\<rparr>"

definition createTerminalElement :: "string \<Rightarrow> WebviewContext \<Rightarrow> TerminalEntry \<times> WebviewContext" where
  "createTerminalElement i ctx =
     (let container = nextObject ctx;
          term = nextObject ctx + 1;
          fit = nextObject ctx + 2;
          entry = \<lparr>terminal = term, fitAddon = fit, element = container\<rparr>
      in (entry,
          ctx\<lparr>terminalsContainer := terminalsContainer ctx @ [container],
              nextObject := nextObject ctx + 4,
              state := TerminalState_set i entry (state ctx)\<rparr>))"

section \<open>Theorems\<close>

subsection \<open>The sliding buffer\<close>

lemma slice_from_neg: "0 < n \<Longrightarrow> slice_from (- int n) s = lastn n s"
  by (auto simp: slice_from_def lastn_def Let_def max_def nat_diff_distrib' intro: arg_cong2[where f = drop])

lemma lastn_all: "length xs \<le> k \<Longrightarrow> lastn k xs = xs"
  by (simp add: lastn_def)

lemma length_lastn: "length (lastn k xs) = min k (length xs)"
  by (simp add: lastn_def)

lemma lastn_append: "lastn k (lastn k xs @ ys) = lastn k (xs @ ys)"
proof (cases "length xs \<le> k")
  case True
  then show ?thesis by (simp add: lastn_def)
next
  case False
  then have "length xs + length ys - k = (length xs - k) + length ys" by simp
  with False show ?thesis by (simp add: lastn_def add.commute)
qed

lemma lastn_min: "lastn (min k (length xs)) xs = lastn k xs"
  by (simp add: lastn_def min_def)

lemma append_window:
  assumes "0 < n" "maxSize b = int n"
  shows "buffer (PromptBuffer_append data b) = lastn n (buffer b @ data)"
    and "maxSize (PromptBuffer_append data b) = int n"
  using assms by (auto simp: PromptBuffer_append_def Let_def slice_from_neg lastn_all)

lemma append_all_window:
  assumes "0 < n" "maxSize b = int n" "buffer b = lastn n prev"
  shows "buffer (append_all chunks b) = lastn n (prev @ concat chunks)"
  using assms
proof (induction chunks arbitrary: b prev)
  case Nil
  then show ?case by (simp add: append_all_def)
next
  case (Cons c cs)
  have "buffer (PromptBuffer_append c b) = lastn n (prev @ c)"
    using Cons.prems by (simp add: append_window lastn_append)
  moreover have "maxSize (PromptBuffer_append c b) = int n"
    using Cons.prems by (simp add: append_window)
  ultimately have "buffer (append_all cs (PromptBuffer_append c b)) = lastn n ((prev @ c) @ concat cs)"
    using Cons.IH[of "PromptBuffer_append c b" "prev @ c"] Cons.prems(1) by blast
  then show ?case by (simp add: append_all_def)
qed

text \<open>
  A capacity of 0 is never built: every buffer of a detector is made with the default
  capacity (see \<open>reachable_buffers\<close> below). There \<open>slice(-0)\<close> is \<open>slice(0)\<close>, which
  keeps the whole string.
\<close>

lemma capacity_zero_keeps_everything:
  "buffer (append_all [js ''a''] (PromptBuffer_new 0)) = js ''a''"
  by (simp add: append_all_def PromptBuffer_append_def PromptBuffer_new_def slice_from_def js_def)

subsection \<open>What each operation leaves alone\<close>

lemma setWaitingState_fields [simp]:
  "buffers (setWaitingState i b d) = buffers d"
  "timers (setWaitingState i b d) = timers d"
  "patterns (setWaitingState i b d) = patterns d"
  "config (setWaitingState i b d) = config d"
  "clock (setWaitingState i b d) = clock d"
  "scheduled (setWaitingState i b d) = scheduled d"
  "nextHandle (setWaitingState i b d) = nextHandle d"
  "evaluations (setWaitingState i b d) = evaluations d"
  by (simp_all add: setWaitingState_def)

lemma currentState_setWaitingState [simp]:
  "currentState (setWaitingState i b d) j = (if j = i then b else currentState d j)"
  by (auto simp: setWaitingState_def currentState_def)

lemma notifications_setWaitingState:
  "notifications (setWaitingState i b d)
     = notifications d @ (if currentState d i = b then [] else [(i, b)])"
  by (simp add: setWaitingState_def)

lemma clearTimeout_fields [simp]:
  "buffers (clearTimeout h d) = buffers d"
  "timers (clearTimeout h d) = timers d"
  "waitingState (clearTimeout h d) = waitingState d"
  "patterns (clearTimeout h d) = patterns d"
  "config (clearTimeout h d) = config d"
  "clock (clearTimeout h d) = clock d"
  "nextHandle (clearTimeout h d) = nextHandle d"
  "notifications (clearTimeout h d) = notifications d"
  "evaluations (clearTimeout h d) = evaluations d"
  "scheduled (clearTimeout h d) = filter (\<lambda>t. handle t \<noteq> h) (scheduled d)"
  by (simp_all add: clearTimeout_def)

lemma currentState_clearTimeout [simp]: "currentState (clearTimeout h d) = currentState d"
  by (rule ext) (simp add: currentState_def)

lemma clearTimer_fields [simp]:
  "buffers (clearTimer i d) = buffers d"
  "waitingState (clearTimer i d) = waitingState d"
  "patterns (clearTimer i d) = patterns d"
  "config (clearTimer i d) = config d"
  "clock (clearTimer i d) = clock d"
  "nextHandle (clearTimer i d) = nextHandle d"
  "notifications (clearTimer i d) = notifications d"
  "evaluations (clearTimer i d) = evaluations d"
  by (simp_all add: clearTimer_def split: option.splits)

lemma currentState_clearTimer [simp]: "currentState (clearTimer i d) = currentState d"
  by (rule ext) (simp add: currentState_def)

lemma onData_notifications:
  "notifications (onData i data d)
     = notifications d @ (if enabled (config d) \<and> waitingState d i = Some True then [(i, False)] else [])"
  by (auto simp: onData_def Let_def setTimeout_def notifications_setWaitingState currentState_def
           split: prod.splits)

lemma onData_currentState:
  "currentState (onData i data d) j
     = (if enabled (config d) \<and> j = i then False else currentState d j)"
  by (auto simp: onData_def Let_def setTimeout_def currentState_def setWaitingState_def
           split: prod.splits option.splits)

lemma onUserInput_notifications:
  "notifications (onUserInput i d) = notifications d @ (if currentState d i then [(i, False)] else [])"
  by (auto simp: onUserInput_def Let_def notifications_setWaitingState split: option.splits)

lemma onUserInput_currentState:
  "currentState (onUserInput i d) j = (if j = i then False else currentState d j)"
  by (auto simp: onUserInput_def Let_def currentState_def setWaitingState_def split: option.splits)

lemma run_Cons: "run E (ev # evs) d = run E evs (apply_event E ev d)"
  by (simp add: run_def)

lemma run_Nil: "run E [] d = d"
  by (simp add: run_def)

lemma reachable_run: "reachable E d \<Longrightarrow> reachable E (run E evs d)"
proof (induction evs arbitrary: d)
  case Nil
  then show ?case by (simp add: run_def)
next
  case (Cons ev evs)
  have "reachable E (apply_event E ev d)"
    using Cons.prems by (rule reachable_step)
  then have "reachable E (run E evs (apply_event E ev d))"
    by (rule Cons.IH)
  then show ?case by (simp add: run_def)
qed

subsection \<open>The example states\<close>

lemma example_prompted_buffer:
  "buffers example_prompted ''t1'' = Some \<lparr>buffer = js ''Password:'', maxSize = 500\<rparr>"
  by code_simp

lemma example_waiting_buffer:
  "buffers example_waiting ''t1'' = Some \<lparr>buffer = js ''Password:'', maxSize = 500\<rparr>"
  by code_simp

lemma example_waiting_state: "waitingState example_waiting ''t1'' = Some True"
  by code_simp

lemma example_disabled_state:
  "waitingState example_disabled ''t1'' = Some True \<and> \<not> enabled (config example_disabled)"
  by code_simp

lemma example_reachable:
  "reachable example_engine example_prompted"
  "reachable example_engine example_waiting"
  "reachable example_engine example_disabled"
  unfolding example_prompted_def example_waiting_def example_disabled_def
  by (intro reachable_run reachable_new)+

subsection \<open>Output while the detector is disabled\<close>

text \<open>
  Claim C10: while the configuration has \<open>enabled = false\<close>, a call of \<open>onData\<close> changes
  nothing at all: no buffer is created or appended to, no timeout is cancelled or
  scheduled, no recorded wait state changes and no notification is emitted.
\<close>

theorem onData_disabled_is_noop:
  assumes "\<not> enabled (config d)"
  shows "onData i data d = d"
  using assms by (simp add: onData_def)

text \<open>
  Claim C10 at the disabled example detector, whose terminal \<open>t1\<close> is waiting: output
  for \<open>t1\<close> leaves the detector as it is, and \<open>t1\<close> stays waiting.
\<close>

theorem onData_disabled_is_noop_witness:
  "\<not> enabled (config example_disabled)
   \<and> onData ''t1'' (js ''y'') example_disabled = example_disabled
   \<and> waitingState (onData ''t1'' (js ''y'') example_disabled) ''t1'' = Some True"
  using onData_disabled_is_noop[of example_disabled "''t1''" "js ''y''"] example_disabled_state
  by simp

subsection \<open>The active patterns\<close>

lemma push_compiled_eq:
  "push_compiled E ps cs = ps @ map (\<lambda>p. rx p []) (filter (rx_valid E) cs)"
  by (induction cs arbitrary: ps) (simp_all add: RegExp_new_def rx_def)

lemma buildPatterns_eq:
  "buildPatterns E cs = DEFAULT_PROMPT_PATTERNS @ map (\<lambda>p. rx p []) (filter (rx_valid E) cs)"
  by (simp add: buildPatterns_def push_compiled_eq)

lemma patterns_updateConfig: "patterns (updateConfig E cfg d) = buildPatterns E (customPatterns cfg)"
  by (simp add: updateConfig_def Let_def)

text \<open>
  Claim C6: the constructor and \<open>updateConfig\<close> both leave as active patterns exactly
  the built-in defaults followed by the custom strings that compile, in their order, each
  compiled without flags; every pattern behind the defaults has a source that compiles.
  Both are total: the SyntaxError of a string that does not compile is caught in
  \<open>buildPatterns\<close> and goes nowhere.
\<close>

theorem invalid_custom_patterns_dropped:
  "patterns (PromptDetector_new E cfg)
     = DEFAULT_PROMPT_PATTERNS @ map (\<lambda>p. rx p []) (filter (rx_valid E) (customPatterns cfg))
   \<and> patterns (updateConfig E cfg d)
     = DEFAULT_PROMPT_PATTERNS @ map (\<lambda>p. rx p []) (filter (rx_valid E) (customPatterns cfg))
   \<and> list_all (\<lambda>r. rx_valid E (source r))
        (drop (length DEFAULT_PROMPT_PATTERNS) (patterns (PromptDetector_new E cfg)))
   \<and> list_all (\<lambda>r. rx_valid E (source r))
        (drop (length DEFAULT_PROMPT_PATTERNS) (patterns (updateConfig E cfg d)))"
  by (simp add: PromptDetector_new_def patterns_updateConfig buildPatterns_eq list_all_iff rx_def)

text \<open>
  Claim C6 at the example configuration, whose custom patterns are \<open>(\<close>, which does not
  compile, and \<open>Password:\<close>: only the second one is behind the sixteen defaults.
\<close>

theorem invalid_custom_patterns_dropped_witness:
  "map source (drop 16 (patterns (PromptDetector_new example_engine example_config))) = [js ''Password:'']
   \<and> map source (drop 16 (patterns (updateConfig example_engine example_config
         (PromptDetector_new example_engine (example_config\<lparr>customPatterns := []\<rparr>))))) = [js ''Password:'']"
proof -
  have v: "filter (rx_valid example_engine) (customPatterns example_config) = [js ''Password:'']"
    by code_simp
  have l: "length DEFAULT_PROMPT_PATTERNS = 16"
    by (simp add: DEFAULT_PROMPT_PATTERNS_def)
  show ?thesis
    using invalid_custom_patterns_dropped[of example_engine example_config
        "PromptDetector_new example_engine (example_config\<lparr>customPatterns := []\<rparr>)"]
    by (simp add: v l rx_def)
qed

subsection \<open>An evaluation\<close>

lemma strip_skip_plain:
  assumes "0x1B \<notin> set s"
  shows "strip_skip 0 s = s"
  using assms
proof (induction s)
  case Nil
  show ?case by simp
next
  case (Cons c r)
  then have "ansi_match_len (c # r) = None"
    by (cases r) auto
  with Cons show ?case by simp
qed

lemma stripAnsi_plain: "0x1B \<notin> set s \<Longrightarrow> stripAnsi s = s"
  by (simp add: stripAnsi_def strip_skip_plain)

text \<open>A colour sequence and a reset are stripped; \<open>ESC 7\<close> is not in the expression and
  stays.\<close>

lemma stripAnsi_example:
  "stripAnsi ([0x1B, 0x5B, 0x33, 0x31, 0x6D] @ js ''hi'' @ [0x1B, 0x5B, 0x30, 0x6D, 0x1B, 0x37])
     = js ''hi'' @ [0x1B, 0x37]"
  by code_simp

lemma some_test_fst: "fst (some_test E ps s) = (\<exists>r\<in>set ps. fst (RegExp_test E r s))"
  by (induction ps) (auto split: prod.splits bool.splits)

lemma some_test_perm:
  assumes "mset ps = mset qs"
  shows "fst (some_test E ps s) = fst (some_test E qs s)"
  using mset_eq_setD[OF assms] by (simp add: some_test_fst)

lemma checkForPrompt_currentState:
  assumes "buffers d i = Some b"
  shows "currentState (checkForPrompt E i d) i
           = fst (some_test E (patterns d) (slice_from (- 200) (stripAnsi (buffer b))))"
  using assms by (simp add: checkForPrompt_def Let_def getContent_def split: prod.splits)

lemma checkForPrompt_notifications:
  assumes "buffers d i = Some b"
  shows "notifications (checkForPrompt E i d)
           = notifications d @
             (if currentState d i = fst (some_test E (patterns d) (slice_from (- 200) (stripAnsi (buffer b))))
              then [] else [(i, fst (some_test E (patterns d) (slice_from (- 200) (stripAnsi (buffer b)))))])"
  using assms
  by (simp add: checkForPrompt_def Let_def getContent_def notifications_setWaitingState
                currentState_def split: prod.splits)

lemma slice_200: "slice_from (- 200) s = lastn 200 s"
  using slice_from_neg[of 200 s] by simp

lemma classes_disjoint:
  "in_range 0x20 0x2F c \<Longrightarrow> \<not> in_range 0x30 0x3F c"
  "in_range 0x40 0x7E c \<Longrightarrow> \<not> in_range 0x30 0x3F c"
  "in_range 0x40 0x7E c \<Longrightarrow> \<not> in_range 0x20 0x2F c"
  by (auto simp: in_range_def word_le_nat_alt)

lemma bracket_not_single:
  "\<not> in_range 0x40 0x5A (0x5B :: 16 word)" "\<not> in_range 0x5C 0x5F (0x5B :: 16 word)"
  by (simp_all add: in_range_def)

lemma takeWhile_stops:
  assumes "list_all Q i" and "\<not> P f" and "\<And>x. Q x \<Longrightarrow> \<not> P x"
  shows "takeWhile P (i @ f # rest) = []" and "dropWhile P (i @ f # rest) = i @ f # rest"
  using assms by (cases i; simp)+

lemma csi_len_complete:
  assumes "list_all (in_range 0x30 0x3F) p" and "list_all (in_range 0x20 0x2F) i"
    and "in_range 0x40 0x7E f"
  shows "csi_len (p @ i @ f # rest) = Some (length p + length i + 1)"
proof -
  have p: "\<forall>x\<in>set p. in_range 0x30 0x3F x" and i: "\<forall>x\<in>set i. in_range 0x20 0x2F x"
    using assms(1,2) by (simp_all add: list_all_iff)
  have t1: "takeWhile (in_range 0x30 0x3F) (p @ i @ f # rest) = p"
    using p takeWhile_stops(1)[OF assms(2), of "in_range 0x30 0x3F" f rest] assms(3)
    by (simp add: takeWhile_append2 classes_disjoint)
  have d1: "dropWhile (in_range 0x30 0x3F) (p @ i @ f # rest) = i @ f # rest"
    using p takeWhile_stops(2)[OF assms(2), of "in_range 0x30 0x3F" f rest] assms(3)
    by (simp add: dropWhile_append2 classes_disjoint)
  have t2: "takeWhile (in_range 0x20 0x2F) (i @ f # rest) = i"
    using i assms(3) by (simp add: takeWhile_append2 classes_disjoint)
  have d2: "dropWhile (in_range 0x20 0x2F) (i @ f # rest) = f # rest"
    using i assms(3) by (simp add: dropWhile_append2 classes_disjoint)
  show ?thesis
    using assms(3) by (simp add: csi_len_def t1 d1 t2 d2)
qed

lemma match_complete:
  assumes "control_sequence s"
  shows "ansi_match_len (s @ rest) = Some (length s)"
proof -
  consider (single) c where "s = [0x1B, c]" "in_range 0x40 0x5A c \<or> in_range 0x5C 0x5F c"
    | (csi) p i f where "s = [0x1B, 0x5B] @ p @ i @ [f]"
        "list_all (in_range 0x30 0x3F) p" "list_all (in_range 0x20 0x2F) i" "in_range 0x40 0x7E f"
    using assms unfolding control_sequence_def by blast
  then show ?thesis
  proof cases
    case single
    then show ?thesis by auto
  next
    case csi
    show ?thesis
      using csi_len_complete[OF csi(2,3,4), of rest] by (simp add: csi(1) bracket_not_single)
  qed
qed

lemma csi_len_sound:
  assumes "csi_len r = Some m"
  shows "\<exists>p i f. take m r = p @ i @ [f]
           \<and> list_all (in_range 0x30 0x3F) p \<and> list_all (in_range 0x20 0x2F) i
           \<and> in_range 0x40 0x7E f"
proof -
  let ?p = "takeWhile (in_range 0x30 0x3F) r"
  let ?s1 = "dropWhile (in_range 0x30 0x3F) r"
  let ?i = "takeWhile (in_range 0x20 0x2F) ?s1"
  let ?s2 = "dropWhile (in_range 0x20 0x2F) ?s1"
  obtain f rest where s2: "?s2 = f # rest" and f: "in_range 0x40 0x7E f"
    and m: "m = length ?p + length ?i + 1"
    using assms by (auto simp: csi_len_def Let_def split: list.splits if_splits)
  have "r = ?p @ ?i @ f # rest"
    using s2 by (metis takeWhile_dropWhile_id)
  then have "take m r = take m (?p @ ?i @ [f] @ rest)" by simp
  also have "\<dots> = ?p @ ?i @ [f]"
    using m by simp
  finally have t: "take m r = ?p @ ?i @ [f]" .
  have "list_all (in_range 0x30 0x3F) ?p" "list_all (in_range 0x20 0x2F) ?i"
    by (auto simp: list_all_iff dest: set_takeWhileD)
  with t f show ?thesis by blast
qed

lemma match_sound:
  assumes "ansi_match_len t = Some n"
  shows "control_sequence (take n t)"
proof -
  obtain e c r where t: "t = e # c # r"
    using assms by (cases t rule: ansi_match_len.cases) auto
  have e: "e = 0x1B"
    using assms t by (simp split: if_splits)
  show ?thesis
  proof (cases "in_range 0x40 0x5A c \<or> in_range 0x5C 0x5F c")
    case True
    then have "n = 2" using assms t e by simp
    with True t e show ?thesis by (auto simp: control_sequence_def)
  next
    case False
    then obtain m where c: "c = 0x5B" and m: "csi_len r = Some m" and n: "n = m + 2"
      using assms t e by (auto split: if_splits)
    obtain p i f where "take m r = p @ i @ [f]"
      "list_all (in_range 0x30 0x3F) p" "list_all (in_range 0x20 0x2F) i" "in_range 0x40 0x7E f"
      using csi_len_sound[OF m] by blast
    then show ?thesis
      unfolding control_sequence_def using t e c n by auto
  qed
qed

lemma strip_skip_over: "strip_skip (length xs) (xs @ rest) = strip_skip 0 rest"
  by (induction xs) simp_all

lemma control_sequence_length:
  assumes "control_sequence s"
  shows "2 \<le> length s"
  using assms by (auto simp: control_sequence_def)

lemma stripAnsi_removes:
  assumes "control_sequence s"
  shows "stripAnsi (s @ rest) = stripAnsi rest"
proof -
  obtain c s' where s: "s = c # s'"
    using control_sequence_length[OF assms] by (cases s) auto
  have "ansi_match_len (c # s' @ rest) = Some (length s)"
    using match_complete[OF assms, of rest] s by simp
  then have "strip_skip 0 (c # s' @ rest) = strip_skip (length s') (s' @ rest)"
    using s by simp
  then show ?thesis
    by (simp add: stripAnsi_def s strip_skip_over)
qed

lemma stripAnsi_keeps:
  assumes "\<And>n. \<not> control_sequence (take n (c # rest))"
  shows "stripAnsi (c # rest) = c # stripAnsi rest"
proof -
  have "ansi_match_len (c # rest) = None"
  proof (cases "ansi_match_len (c # rest)")
    case None
    then show ?thesis .
  next
    case (Some n)
    then show ?thesis using match_sound[OF Some] assms by blast
  qed
  then show ?thesis by (simp add: stripAnsi_def)
qed

lemma stripAnsi_empty: "stripAnsi [] = []"
  by (simp add: stripAnsi_def)

lemma stripAnsi_determined:
  assumes e: "f [] = []"
    and r: "\<And>s rest. control_sequence s \<Longrightarrow> f (s @ rest) = f rest"
    and k: "\<And>c rest. (\<And>n. \<not> control_sequence (take n (c # rest))) \<Longrightarrow> f (c # rest) = c # f rest"
  shows "f t = stripAnsi t"
proof (induction t rule: length_induct)
  case (1 t)
  show ?case
  proof (cases t)
    case Nil
    then show ?thesis by (simp add: e stripAnsi_empty)
  next
    case (Cons c rest)
    show ?thesis
    proof (cases "\<exists>n. control_sequence (take n t)")
      case True
      then obtain n where n: "control_sequence (take n t)" by blast
      have "length (drop n t) < length t"
        using control_sequence_length[OF n] by auto
      then have "f (drop n t) = stripAnsi (drop n t)"
        using 1 by blast
      moreover have "f (take n t @ drop n t) = f (drop n t)"
        using n by (rule r)
      moreover have "stripAnsi (take n t @ drop n t) = stripAnsi (drop n t)"
        using n by (rule stripAnsi_removes)
      ultimately show ?thesis by simp
    next
      case False
      then have no: "\<And>n. \<not> control_sequence (take n (c # rest))"
        using Cons by blast
      have "f rest = stripAnsi rest"
        using 1 Cons by simp
      then show ?thesis
        using k[OF no] stripAnsi_keeps[OF no] Cons by simp
    qed
  qed
qed

text \<open>
  Claim C7: an evaluation of a terminal with a buffer records as wait state the
  disjunction, over the active patterns, of the pattern's test on the last 200 code units
  of the buffer's whole content with the control sequences stripped; an evaluation with
  the patterns in any other order records the same state and emits the same
  notifications. Stripping deletes every control sequence it meets from the left and
  keeps a code unit at which no control sequence starts, and it is the only function
  that does so.
\<close>

theorem evaluation_is_or_over_tail:
  assumes "buffers d i = Some b" and "mset ps = mset (patterns d)"
  shows "currentState (checkForPrompt E i d) i
           = (\<exists>r\<in>set (patterns d). fst (RegExp_test E r (lastn 200 (stripAnsi (buffer b)))))
       \<and> length (lastn 200 (stripAnsi (buffer b))) \<le> 200
       \<and> currentState (checkForPrompt E i (d\<lparr>patterns := ps\<rparr>)) i
           = currentState (checkForPrompt E i d) i
       \<and> notifications (checkForPrompt E i (d\<lparr>patterns := ps\<rparr>))
           = notifications (checkForPrompt E i d)
       \<and> stripAnsi [] = []
       \<and> (\<forall>s rest. control_sequence s \<longrightarrow> stripAnsi (s @ rest) = stripAnsi rest)
       \<and> (\<forall>c rest. (\<forall>n. \<not> control_sequence (take n (c # rest)))
             \<longrightarrow> stripAnsi (c # rest) = c # stripAnsi rest)
       \<and> (\<forall>f. f [] = []
               \<and> (\<forall>s rest. control_sequence s \<longrightarrow> f (s @ rest) = f rest)
               \<and> (\<forall>c rest. (\<forall>n. \<not> control_sequence (take n (c # rest)))
                     \<longrightarrow> f (c # rest) = c # f rest)
             \<longrightarrow> f = stripAnsi)"
proof -
  have b': "buffers (d\<lparr>patterns := ps\<rparr>) i = Some b"
    using assms(1) by simp
  have c: "currentState (d\<lparr>patterns := ps\<rparr>) i = currentState d i"
    by (simp add: currentState_def)
  have p: "fst (some_test E ps (lastn 200 (stripAnsi (buffer b))))
             = fst (some_test E (patterns d) (lastn 200 (stripAnsi (buffer b))))"
    using assms(2) by (rule some_test_perm)
  have ev: "currentState (checkForPrompt E i d) i
           = (\<exists>r\<in>set (patterns d). fst (RegExp_test E r (lastn 200 (stripAnsi (buffer b)))))
       \<and> length (lastn 200 (stripAnsi (buffer b))) \<le> 200
       \<and> currentState (checkForPrompt E i (d\<lparr>patterns := ps\<rparr>)) i
           = currentState (checkForPrompt E i d) i
       \<and> notifications (checkForPrompt E i (d\<lparr>patterns := ps\<rparr>))
           = notifications (checkForPrompt E i d)"
    by (simp add: checkForPrompt_currentState[OF assms(1)] checkForPrompt_currentState[OF b']
                  checkForPrompt_notifications[OF assms(1)] checkForPrompt_notifications[OF b']
                  slice_200 some_test_fst[symmetric] p c length_lastn)
  have u: "\<forall>f. f [] = []
               \<and> (\<forall>s rest. control_sequence s \<longrightarrow> f (s @ rest) = f rest)
               \<and> (\<forall>c rest. (\<forall>n. \<not> control_sequence (take n (c # rest)))
                     \<longrightarrow> f (c # rest) = c # f rest)
             \<longrightarrow> f = stripAnsi"
  proof (intro allI impI)
    fix f :: "jsstring \<Rightarrow> jsstring"
    assume a: "f [] = []
               \<and> (\<forall>s rest. control_sequence s \<longrightarrow> f (s @ rest) = f rest)
               \<and> (\<forall>c rest. (\<forall>n. \<not> control_sequence (take n (c # rest)))
                     \<longrightarrow> f (c # rest) = c # f rest)"
    have "\<And>t. f t = stripAnsi t"
      using a by (intro stripAnsi_determined) blast+
    then show "f = stripAnsi" by (simp add: fun_eq_iff)
  qed
  show ?thesis
    using ev u stripAnsi_removes stripAnsi_keeps by (simp add: stripAnsi_empty)
qed

lemma example_coloured_buffer:
  "buffers example_coloured ''t1''
     = Some \<lparr>buffer = js ''Pass'' @ [0x1B, 0x5B, 0x31, 0x6D] @ js ''word:'', maxSize = 500\<rparr>"
  by code_simp

text \<open>
  Claim C7 at the example detector whose buffer holds \<open>Password:\<close> with a control
  sequence inside the word: stripped it reads \<open>Password:\<close> and the evaluation finds
  the prompt, with the patterns in their order and in reverse order; on the content as it
  is in the buffer no pattern would match.
\<close>

theorem evaluation_is_or_over_tail_witness:
  "stripAnsi (js ''Pass'' @ [0x1B, 0x5B, 0x31, 0x6D] @ js ''word:'') = js ''Password:''
   \<and> currentState (checkForPrompt example_engine ''t1'' example_coloured) ''t1''
   \<and> currentState (checkForPrompt example_engine ''t1''
        (example_coloured\<lparr>patterns := rev (patterns example_coloured)\<rparr>)) ''t1''
   \<and> \<not> fst (some_test example_engine (patterns example_coloured)
            (lastn 200 (js ''Pass'' @ [0x1B, 0x5B, 0x31, 0x6D] @ js ''word:'')))"
proof -
  have m: "mset (rev (patterns example_coloured)) = mset (patterns example_coloured)"
    by simp
  have s: "stripAnsi (js ''Pass'' @ [0x1B, 0x5B, 0x31, 0x6D] @ js ''word:'') = js ''Password:''"
    by code_simp
  have c: "currentState (checkForPrompt example_engine ''t1'' example_coloured) ''t1''"
    by code_simp
  have n: "\<not> fst (some_test example_engine (patterns example_coloured)
            (lastn 200 (js ''Pass'' @ [0x1B, 0x5B, 0x31, 0x6D] @ js ''word:'')))"
    by code_simp
  show ?thesis
    using evaluation_is_or_over_tail[OF example_coloured_buffer m, of example_engine] s c n
    by simp
qed

subsection \<open>No hidden state\<close>

lemma clearTimeouts_fields [simp]:
  "buffers (foldl (\<lambda>d h. clearTimeout h d) d hs) = buffers d"
  "timers (foldl (\<lambda>d h. clearTimeout h d) d hs) = timers d"
  "waitingState (foldl (\<lambda>d h. clearTimeout h d) d hs) = waitingState d"
  "patterns (foldl (\<lambda>d h. clearTimeout h d) d hs) = patterns d"
  "config (foldl (\<lambda>d h. clearTimeout h d) d hs) = config d"
  "clock (foldl (\<lambda>d h. clearTimeout h d) d hs) = clock d"
  "nextHandle (foldl (\<lambda>d h. clearTimeout h d) d hs) = nextHandle d"
  "notifications (foldl (\<lambda>d h. clearTimeout h d) d hs) = notifications d"
  "evaluations (foldl (\<lambda>d h. clearTimeout h d) d hs) = evaluations d"
  "scheduled (foldl (\<lambda>d h. clearTimeout h d) d hs) = filter (\<lambda>t. handle t \<notin> set hs) (scheduled d)"
  by (induction hs arbitrary: d) (simp_all add: conj_commute)

lemma patterns_onData [simp]: "patterns (onData i data d) = patterns d"
  by (simp add: onData_def Let_def setTimeout_def split: prod.splits)

lemma patterns_onUserInput [simp]: "patterns (onUserInput i d) = patterns d"
  by (simp add: onUserInput_def Let_def split: option.splits)

lemma patterns_removeTerminal [simp]: "patterns (removeTerminal i d) = patterns d"
  by (simp add: removeTerminal_def Let_def)

lemma patterns_dispose [simp]: "patterns (dispose d) = patterns d"
  by (simp add: dispose_def Let_def)

lemma RegExp_test_stateless:
  assumes "\<not> stateful r"
  shows "RegExp_test E r s = (rx_exec E (source r) (flags r) s 0 \<noteq> None, r)"
  using assms by (simp add: RegExp_test_def split: option.splits)

lemma some_test_stateless:
  assumes "list_all (\<lambda>r. \<not> stateful r) ps"
  shows "snd (some_test E ps s) = ps"
  using assms by (induction ps) (auto simp: RegExp_test_stateless split: prod.splits bool.splits)

lemma patterns_checkForPrompt:
  assumes "list_all (\<lambda>r. \<not> stateful r) (patterns d)"
  shows "patterns (checkForPrompt E i d) = patterns d"
proof (cases "buffers d i")
  case None
  then show ?thesis by (simp add: checkForPrompt_def)
next
  case (Some b)
  then show ?thesis
    using some_test_stateless[OF assms, of E "slice_from (- 200) (stripAnsi (getContent b))"]
    by (auto simp: checkForPrompt_def Let_def split: prod.splits)
qed

lemma patterns_fire:
  assumes "list_all (\<lambda>r. \<not> stateful r) (patterns d)"
  shows "patterns (fire E h d) = patterns d"
  using assms patterns_checkForPrompt[of "clearTimeout h d" E]
  by (simp add: fire_def split: option.splits)

lemma defaults_stateless: "list_all (\<lambda>r. \<not> stateful r) DEFAULT_PROMPT_PATTERNS"
  by (simp add: DEFAULT_PROMPT_PATTERNS_def rx_def stateful_def)

lemma buildPatterns_stateless: "list_all (\<lambda>r. \<not> stateful r) (buildPatterns E cs)"
  using defaults_stateless by (auto simp: buildPatterns_eq list_all_iff rx_def stateful_def)

lemma reachable_stateless:
  assumes "reachable E d"
  shows "list_all (\<lambda>r. \<not> stateful r) (patterns d)"
  using assms
proof (induction rule: reachable.induct)
  case (reachable_new cfg)
  show ?case by (simp add: PromptDetector_new_def buildPatterns_stateless)
next
  case (reachable_step d ev)
  then show ?case
    by (cases ev) (simp_all add: patterns_updateConfig buildPatterns_stateless patterns_fire)
qed

lemma buffers_checkForPrompt [simp]: "buffers (checkForPrompt E i d) = buffers d"
  by (simp add: checkForPrompt_def Let_def split: option.splits prod.splits)

text \<open>
  Claim C8: in every reachable state no active pattern has the flag \<open>g\<close> or \<open>y\<close>, so an
  evaluation depends on the buffer's content and the patterns only: two evaluations on
  equal contents and equal patterns compute the same state, whatever the rest of the two
  detectors is; an evaluation leaves the patterns (their \<open>lastIndex\<close> too) and the buffers
  as they were; and a second evaluation right after the first computes the same state.
\<close>

theorem evaluation_is_pure:
  assumes "reachable E d1" and "reachable E d2"
    and "buffers d1 i = Some b1" and "buffers d2 j = Some b2"
    and "buffer b1 = buffer b2" and "patterns d1 = patterns d2"
  shows "list_all (\<lambda>r. \<not> stateful r) (patterns d1)
       \<and> currentState (checkForPrompt E i d1) i = currentState (checkForPrompt E j d2) j
       \<and> patterns (checkForPrompt E i d1) = patterns d1
       \<and> buffers (checkForPrompt E i d1) = buffers d1
       \<and> currentState (checkForPrompt E i (checkForPrompt E i d1)) i
           = currentState (checkForPrompt E i d1) i"
proof -
  have p: "patterns (checkForPrompt E i d1) = patterns d1"
    using reachable_stateless[OF assms(1)] by (rule patterns_checkForPrompt)
  have b: "buffers (checkForPrompt E i d1) i = Some b1"
    using assms(3) by simp
  show ?thesis
    using assms(5,6) reachable_stateless[OF assms(1)]
    by (simp add: checkForPrompt_currentState[OF assms(3)] checkForPrompt_currentState[OF assms(4)]
                  checkForPrompt_currentState[OF b] p)
qed

text \<open>
  Claim C8 at the example detector before and after its timeout has fired: both
  evaluations compute the same state, and the patterns are unchanged.
\<close>

theorem evaluation_is_pure_witness:
  "currentState (checkForPrompt example_engine ''t1'' example_prompted) ''t1''
     = currentState (checkForPrompt example_engine ''t1'' example_waiting) ''t1''
   \<and> patterns (checkForPrompt example_engine ''t1'' example_prompted) = patterns example_prompted"
proof -
  have p: "patterns example_prompted = patterns example_waiting"
    by code_simp
  have b: "buffer \<lparr>buffer = js ''Password:'', maxSize = 500\<rparr> = buffer \<lparr>buffer = js ''Password:'', maxSize = 500\<rparr>"
    by simp
  show ?thesis
    using evaluation_is_pure[OF example_reachable(1) example_reachable(2)
        example_prompted_buffer example_waiting_buffer b p]
    by simp
qed

text \<open>The model does see hidden match positions: under the flag \<open>g\<close> a second test of the
  same text gives another answer.\<close>

lemma global_flag_is_stateful:
  "fst (RegExp_test example_engine (rx (js ''a'') ''g'') (js ''a''))
   \<and> \<not> fst (RegExp_test example_engine
           (snd (RegExp_test example_engine (rx (js ''a'') ''g'') (js ''a''))) (js ''a''))"
  by code_simp

subsection \<open>The buffers of a detector\<close>

lemma buffers_onData:
  "buffers (onData i data d)
     = (if enabled (config d)
        then (buffers d)(i \<mapsto> PromptBuffer_append data
               (case buffers d i of None \<Rightarrow> PromptBuffer_default | Some b \<Rightarrow> b))
        else buffers d)"
  by (simp add: onData_def Let_def setTimeout_def split: prod.splits)

lemma buffers_onUserInput:
  "buffers (onUserInput i d)
     = (case buffers d i of None \<Rightarrow> buffers d
        | Some b \<Rightarrow> (buffers d)(i \<mapsto> PromptBuffer_clear b))"
  by (simp add: onUserInput_def Let_def split: option.splits)

lemma buffers_removeTerminal: "buffers (removeTerminal i d) = (buffers d)(i := None)"
  by (simp add: removeTerminal_def Let_def)

lemma buffers_updateConfig [simp]: "buffers (updateConfig E cfg d) = buffers d"
  by (simp add: updateConfig_def Let_def)

lemma buffers_dispose [simp]: "buffers (dispose d) = Map.empty"
  by (simp add: dispose_def Let_def)

lemma buffers_fire [simp]: "buffers (fire E h d) = buffers d"
  by (simp add: fire_def split: option.splits)

lemma append_bounded:
  assumes "maxSize b = 500"
  shows "maxSize (PromptBuffer_append data b) = 500 \<and> length (buffer (PromptBuffer_append data b)) \<le> 500"
  using append_window[of 500 b data] assms by (simp add: length_lastn)

lemma reachable_buffers:
  assumes "reachable E d" and "buffers d i = Some b"
  shows "maxSize b = 500 \<and> length (buffer b) \<le> 500"
  using assms
proof (induction arbitrary: i b rule: reachable.induct)
  case (reachable_new cfg)
  then show ?case by (simp add: PromptDetector_new_def)
next
  case (reachable_step d ev)
  show ?case
  proof (cases ev)
    case (Output j c)
    show ?thesis
    proof (cases "enabled (config d) \<and> i = j")
      case True
      let ?old = "case buffers d j of None \<Rightarrow> PromptBuffer_default | Some b \<Rightarrow> b"
      have "maxSize ?old = 500"
        using reachable_step.IH[of j]
        by (auto simp: PromptBuffer_default_def PromptBuffer_new_def split: option.splits)
      moreover have "b = PromptBuffer_append c ?old"
        using reachable_step.prems Output True by (simp add: buffers_onData)
      ultimately show ?thesis
        using append_bounded by blast
    next
      case False
      then have "buffers d i = Some b"
        using reachable_step.prems Output by (auto simp: buffers_onData split: if_splits)
      then show ?thesis by (rule reachable_step.IH)
    qed
  next
    case (UserInput j)
    show ?thesis
    proof (cases "i = j")
      case True
      then obtain b0 where "buffers d j = Some b0" "b = PromptBuffer_clear b0"
        using reachable_step.prems UserInput
        by (auto simp: buffers_onUserInput split: option.splits)
      then show ?thesis
        using reachable_step.IH[of j b0] by (simp add: PromptBuffer_clear_def)
    next
      case False
      then have "buffers d i = Some b"
        using reachable_step.prems UserInput
        by (auto simp: buffers_onUserInput split: option.splits)
      then show ?thesis by (rule reachable_step.IH)
    qed
  next
    case (Removed j)
    then have "buffers d i = Some b"
      using reachable_step.prems by (auto simp: buffers_removeTerminal split: if_splits)
    then show ?thesis by (rule reachable_step.IH)
  next
    case (Reconfig cfg)
    then have "buffers d i = Some b"
      using reachable_step.prems by simp
    then show ?thesis by (rule reachable_step.IH)
  next
    case Disposed
    then show ?thesis using reachable_step.prems by simp
  next
    case (Elapse n)
    then have "buffers d i = Some b"
      using reachable_step.prems by simp
    then show ?thesis by (rule reachable_step.IH)
  next
    case (TimerFires h)
    then have "buffers d i = Some b"
      using reachable_step.prems by simp
    then show ?thesis by (rule reachable_step.IH)
  qed
qed

text \<open>
  Claim C2: for every sequence of chunks appended to a new buffer of capacity \<open>N \<ge> 1\<close>,
  and so to a buffer of the default capacity 500, after each append (after the first \<open>k\<close>
  chunks, for every \<open>k\<close>) the buffer is at most \<open>N\<close> long and holds exactly the last
  \<open>min N (total appended length)\<close> code units of the concatenation of the chunks appended
  so far, in their order. Every buffer of a reachable detector has the capacity 500 and
  is at most 500 long.
\<close>

theorem sliding_buffer_window:
  assumes "0 < N" and "k \<le> length chunks"
  shows "int (length (buffer (append_all (take k chunks) (PromptBuffer_new N)))) \<le> N
       \<and> buffer (append_all (take k chunks) (PromptBuffer_new N))
           = lastn (min (nat N) (length (concat (take k chunks)))) (concat (take k chunks))
       \<and> length (buffer (append_all (take k chunks) PromptBuffer_default)) \<le> 500
       \<and> buffer (append_all (take k chunks) PromptBuffer_default)
           = lastn (min 500 (length (concat (take k chunks)))) (concat (take k chunks))
       \<and> (\<forall>E d i b. reachable E d \<and> buffers d i = Some b
             \<longrightarrow> maxSize b = 500 \<and> length (buffer b) \<le> 500)"
proof -
  obtain n where n: "N = int n" "0 < n"
    using assms(1) by (metis pos_int_cases)
  have w: "buffer (append_all (take k chunks) (PromptBuffer_new N)) = lastn n (concat (take k chunks))"
    using append_all_window[of n "PromptBuffer_new N" "[]" "take k chunks"] n
    by (simp add: PromptBuffer_new_def lastn_def)
  have v: "buffer (append_all (take k chunks) PromptBuffer_default) = lastn 500 (concat (take k chunks))"
    using append_all_window[of 500 PromptBuffer_default "[]" "take k chunks"]
    by (simp add: PromptBuffer_default_def PromptBuffer_new_def lastn_def)
  have r: "\<forall>E d i b. reachable E d \<and> buffers d i = Some b
             \<longrightarrow> maxSize b = 500 \<and> length (buffer b) \<le> 500"
    using reachable_buffers by blast
  show ?thesis
    unfolding w v using n r by (simp add: lastn_min length_lastn)
qed

text \<open>
  Claim C2 at capacity 3 with the chunks \<open>ab\<close> and \<open>cde\<close>, and at the default capacity
  with 300 times \<open>a\<close> and 300 times \<open>b\<close>: the first 100 code units are gone.
\<close>

theorem sliding_buffer_window_witness:
  "(0::int) < 3 \<and> (2::nat) \<le> length [js ''ab'', js ''cde'']
   \<and> buffer (append_all [js ''ab'', js ''cde''] (PromptBuffer_new 3)) = js ''cde''
   \<and> buffer (append_all [replicate 300 0x61, replicate 300 0x62] PromptBuffer_default)
       = replicate 200 0x61 @ replicate 300 0x62"
  using sliding_buffer_window[of 3 2 "[js ''ab'', js ''cde'']"]
    sliding_buffer_window[of 3 2 "[replicate 300 0x61, replicate 300 0x62]"]
  by (simp add: lastn_def js_def)

subsection \<open>Creating a terminal entry twice\<close>

text \<open>
  Claim C9, as stated, at the id \<open>1\<close> created twice: the second call returns a new entry
  as the first did, and the table then holds the new entry in place of the old one.
\<close>

theorem duplicate_create_overwrites:
  "TerminalState_get ''1'' (state (snd (createTerminalElement ''1'' WebviewContext_new)))
     = Some \<lparr>terminal = 1, fitAddon = 2, element = 0\<rparr>
   \<and> createTerminalElement ''1'' (snd (createTerminalElement ''1'' WebviewContext_new))
     = (\<lparr>terminal = 5, fitAddon = 6, element = 4\<rparr>,
        \<lparr>state = \<lparr>terminals = [''1'' \<mapsto> \<lparr>terminal = 5, fitAddon = 6, element = 4\<rparr>], activeTerminalId = None\<rparr>,
         terminalsContainer = [0, 4], nextObject = 8\<rparr>)
   \<and> TerminalState_get ''1'' (state (snd (createTerminalElement ''1''
         (snd (createTerminalElement ''1'' WebviewContext_new)))))
     \<noteq> TerminalState_get ''1'' (state (snd (createTerminalElement ''1'' WebviewContext_new)))"
  by (simp add: createTerminalElement_def Let_def TerminalState_get_def TerminalState_set_def
                WebviewContext_new_def)

text \<open>
  Claim C9, amended: \<open>createTerminalElement\<close> has no failure for an id that is present.
  It always returns the entry it has just built and stores it under the id, in place of
  an entry that was there; the entries of all other ids are unchanged.
\<close>

theorem create_replaces_entry:
  assumes "createTerminalElement i ctx = (entry, ctx')"
  shows "TerminalState_get i (state ctx') = Some entry
       \<and> entry = \<lparr>terminal = nextObject ctx + 1, fitAddon = nextObject ctx + 2, element = nextObject ctx\<rparr>
       \<and> (\<forall>j. j \<noteq> i \<longrightarrow> TerminalState_get j (state ctx') = TerminalState_get j (state ctx))"
  using assms
  by (auto simp: createTerminalElement_def Let_def TerminalState_get_def TerminalState_set_def)

text \<open>
  Claim C9, amended, at a table holding the id \<open>1\<close> when the id \<open>2\<close> is created.
\<close>

theorem create_replaces_entry_witness:
  "TerminalState_get ''2'' (state (snd (createTerminalElement ''2''
       (snd (createTerminalElement ''1'' WebviewContext_new)))))
     = Some \<lparr>terminal = 5, fitAddon = 6, element = 4\<rparr>
   \<and> TerminalState_get ''1'' (state (snd (createTerminalElement ''2''
       (snd (createTerminalElement ''1'' WebviewContext_new)))))
     = Some \<lparr>terminal = 1, fitAddon = 2, element = 0\<rparr>"
  using create_replaces_entry[of "''2''" "snd (createTerminalElement ''1'' WebviewContext_new)"
      "fst (createTerminalElement ''2'' (snd (createTerminalElement ''1'' WebviewContext_new)))"
      "snd (createTerminalElement ''2'' (snd (createTerminalElement ''1'' WebviewContext_new)))"]
  by (simp add: createTerminalElement_def Let_def TerminalState_get_def TerminalState_set_def
                WebviewContext_new_def)

subsection \<open>Hiding is immediate\<close>

lemma waitingState_onData:
  assumes "enabled (config d)" and "waitingState d i = Some True"
  shows "waitingState (onData i data d) i = Some False"
  using assms
  by (simp add: onData_def Let_def setTimeout_def setWaitingState_def currentState_def
           split: prod.splits)

lemma waitingState_onUserInput:
  assumes "waitingState d i = Some True"
  shows "waitingState (onUserInput i d) i = Some False"
  using assms
  by (simp add: onUserInput_def Let_def setWaitingState_def currentState_def split: option.splits)

lemma currentState_removeTerminal:
  "currentState (removeTerminal i d) j = (if j = i then False else currentState d j)"
  by (simp add: removeTerminal_def Let_def currentState_def)

lemma currentState_updateConfig [simp]: "currentState (updateConfig E cfg d) j = currentState d j"
  by (simp add: updateConfig_def Let_def currentState_def)

lemma currentState_dispose [simp]: "currentState (dispose d) j = False"
  by (simp add: dispose_def Let_def currentState_def)

lemma currentState_clock [simp]: "currentState (d\<lparr>clock := c\<rparr>) j = currentState d j"
  by (simp add: currentState_def)

lemma currentState_checkForPrompt_other:
  assumes "j \<noteq> i"
  shows "currentState (checkForPrompt E i d) j = currentState d j"
  using assms
  by (auto simp: checkForPrompt_def Let_def currentState_def setWaitingState_def
           split: option.splits prod.splits)

lemma only_timer_sets_waiting:
  assumes "\<not> is_fire ev" and "\<not> currentState d j"
  shows "\<not> currentState (apply_event E ev d) j"
  using assms
  by (cases ev) (simp_all add: onData_currentState onUserInput_currentState
                   currentState_removeTerminal)

lemma scheduled_onData:
  assumes "enabled (config d)"
  shows "scheduled (onData i data d)
           = scheduled (clearTimer i d)
             @ [\<lparr>handle = nextHandle d, due = clock d + showDelay (config d), target = i\<rparr>]"
  using assms
  by (simp add: onData_def Let_def setTimeout_def clearTimer_def clearTimeout_def
           split: prod.splits option.splits)

lemma scheduled_clearTimer_subset: "set (scheduled (clearTimer i d)) \<subseteq> set (scheduled d)"
  by (auto simp: clearTimer_def split: option.splits)

lemma fire_needs_due_timer:
  assumes "\<not> currentState d j" and "currentState (fire E h d) j"
  shows "\<exists>t\<in>set (scheduled d). handle t = h \<and> target t = j \<and> due t \<le> clock d"
proof (cases "find (\<lambda>t. handle t = h) (scheduled d)")
  case None
  with assms show ?thesis by (simp add: fire_def)
next
  case (Some t)
  then have t: "t \<in> set (scheduled d)" "handle t = h"
    by (auto simp: find_Some_iff)
  show ?thesis
  proof (cases "due t \<le> clock d")
    case False
    with Some assms show ?thesis by (simp add: fire_def)
  next
    case True
    have "target t = j"
    proof (rule ccontr)
      assume n: "target t \<noteq> j"
      have "currentState (checkForPrompt E (target t) (clearTimeout h d)) j = currentState d j"
        using n by (simp add: currentState_checkForPrompt_other)
      with assms Some True show False by (simp add: fire_def)
    qed
    with t True show ?thesis by blast
  qed
qed

text \<open>
  Claim C1, as stated, at the disabled example detector: terminal \<open>t1\<close> is waiting, and
  after output for \<open>t1\<close> it is still waiting and nothing has been emitted.
\<close>

theorem disabled_output_keeps_waiting:
  "waitingState example_disabled ''t1'' = Some True
   \<and> waitingState (onData ''t1'' (js ''y'') example_disabled) ''t1'' = Some True
   \<and> notifications (onData ''t1'' (js ''y'') example_disabled) = notifications example_disabled"
  by code_simp

text \<open>
  Claim C1, amended: for a terminal whose recorded state is Waiting, a call of
  \<open>onUserInput\<close>, or a call of \<open>onData\<close> while the configuration has \<open>enabled = true\<close>,
  records Idle within the call and emits exactly one notification \<open>(id, false)\<close>. Only the
  way to Waiting is deferred: no event other than a timeout firing turns an Idle terminal
  to Waiting, a timeout that does so is in the queue for that terminal and due, and a
  timeout that \<open>onData\<close> adds to the queue is due \<open>showDelay\<close> after the call.
\<close>

theorem hide_is_immediate:
  assumes "waitingState d i = Some True"
  shows "(enabled (config d) \<longrightarrow>
            waitingState (onData i data d) i = Some False
            \<and> notifications (onData i data d) = notifications d @ [(i, False)])
       \<and> waitingState (onUserInput i d) i = Some False
       \<and> notifications (onUserInput i d) = notifications d @ [(i, False)]
       \<and> (\<forall>ev j. \<not> is_fire ev \<and> \<not> currentState d j \<longrightarrow> \<not> currentState (apply_event E ev d) j)
       \<and> (\<forall>h j. \<not> currentState d j \<and> currentState (fire E h d) j \<longrightarrow>
             (\<exists>t\<in>set (scheduled d). handle t = h \<and> target t = j \<and> due t \<le> clock d))
       \<and> (enabled (config d) \<longrightarrow>
            (\<forall>t\<in>set (scheduled (onData i data d)).
               t \<in> set (scheduled d) \<or> due t = clock d + showDelay (config d)))"
proof -
  have c: "currentState d i"
    using assms by (simp add: currentState_def)
  have s: "enabled (config d) \<Longrightarrow> \<forall>t\<in>set (scheduled (onData i data d)).
               t \<in> set (scheduled d) \<or> due t = clock d + showDelay (config d)"
    using scheduled_clearTimer_subset[of i d] by (auto simp: scheduled_onData)
  show ?thesis
    using assms c s only_timer_sets_waiting[of _ d _ E] fire_needs_due_timer[of d _ E]
    by (simp add: waitingState_onData waitingState_onUserInput onData_notifications
                  onUserInput_notifications)
qed

text \<open>
  Claim C1, amended, at the example detector whose terminal \<open>t1\<close> is waiting.
\<close>

theorem hide_is_immediate_witness:
  "waitingState (onData ''t1'' (js ''y'') example_waiting) ''t1'' = Some False
   \<and> notifications (onData ''t1'' (js ''y'') example_waiting) = [(''t1'', True), (''t1'', False)]
   \<and> waitingState (onUserInput ''t1'' example_waiting) ''t1'' = Some False
   \<and> notifications (onUserInput ''t1'' example_waiting) = [(''t1'', True), (''t1'', False)]"
proof -
  have e: "enabled (config example_waiting)" by code_simp
  have n: "notifications example_waiting = [(''t1'', True)]" by code_simp
  show ?thesis
    using hide_is_immediate[OF example_waiting_state, of "js ''y''" example_engine] e n by simp
qed

subsection \<open>Notifications follow the recorded state\<close>

lemma notifications_removeTerminal [simp]: "notifications (removeTerminal i d) = notifications d"
  by (simp add: removeTerminal_def Let_def)

lemma notifications_updateConfig [simp]: "notifications (updateConfig E cfg d) = notifications d"
  by (simp add: updateConfig_def Let_def)

lemma notifications_dispose [simp]: "notifications (dispose d) = notifications d"
  by (simp add: dispose_def Let_def)

lemma checkForPrompt_cases:
  "(buffers d i = None \<and> checkForPrompt E i d = d)
   \<or> (\<exists>b ps. checkForPrompt E i d
          = setWaitingState i b (d\<lparr>patterns := ps, evaluations := evaluations d @ [i]\<rparr>))"
  by (cases "buffers d i") (auto simp: checkForPrompt_def Let_def split: prod.splits)

lemma changed_setWaitingState:
  "notificationsFor (setWaitingState i b d) j
     = notificationsFor d j
       @ (if currentState (setWaitingState i b d) j = currentState d j then []
          else [(j, currentState (setWaitingState i b d) j)])"
  by (auto simp: notificationsFor_def notifications_setWaitingState)

lemma changed_checkForPrompt:
  "notificationsFor (checkForPrompt E i d) j
     = notificationsFor d j
       @ (if currentState (checkForPrompt E i d) j = currentState d j then []
          else [(j, currentState (checkForPrompt E i d) j)])"
proof -
  consider "checkForPrompt E i d = d"
    | b ps where "checkForPrompt E i d
          = setWaitingState i b (d\<lparr>patterns := ps, evaluations := evaluations d @ [i]\<rparr>)"
    using checkForPrompt_cases[of d i E] by blast
  then show ?thesis
  proof cases
    case 1
    then show ?thesis by simp
  next
    case 2
    have "notificationsFor (d\<lparr>patterns := ps, evaluations := evaluations d @ [i]\<rparr>) j = notificationsFor d j"
      by (simp add: notificationsFor_def)
    moreover have "currentState (d\<lparr>patterns := ps, evaluations := evaluations d @ [i]\<rparr>) j = currentState d j"
      by (simp add: currentState_def)
    ultimately show ?thesis
      using changed_setWaitingState[of i b "d\<lparr>patterns := ps, evaluations := evaluations d @ [i]\<rparr>" j]
      by (simp add: 2)
  qed
qed

lemma fire_cases:
  "fire E h d = d
   \<or> (\<exists>t. t \<in> set (scheduled d) \<and> handle t = h \<and> due t \<le> clock d
          \<and> fire E h d = checkForPrompt E (target t) (clearTimeout h d))"
proof (cases "find (\<lambda>t. handle t = h) (scheduled d)")
  case None
  then show ?thesis by (simp add: fire_def)
next
  case (Some t)
  then have "t \<in> set (scheduled d)" "handle t = h"
    by (auto simp: find_Some_iff)
  with Some show ?thesis
    by (cases "due t \<le> clock d") (auto simp: fire_def)
qed

lemma changed_fire:
  "notificationsFor (fire E h d) j
     = notificationsFor d j
       @ (if currentState (fire E h d) j = currentState d j then []
          else [(j, currentState (fire E h d) j)])"
proof -
  consider "fire E h d = d"
    | t :: timeout where "fire E h d = checkForPrompt E (target t) (clearTimeout h d)"
    using fire_cases[of E h d] by blast
  then show ?thesis
  proof cases
    case 1
    then show ?thesis by simp
  next
    case 2
    have "notificationsFor (clearTimeout h d) j = notificationsFor d j"
      by (simp add: notificationsFor_def)
    then show ?thesis
      using changed_checkForPrompt[of E "target t" "clearTimeout h d" j] by (simp add: 2)
  qed
qed

lemma Some_True_iff: "(waitingState d i = Some True) = currentState d i"
  by (auto simp: currentState_def split: option.splits)

lemma changed_event:
  assumes "lives i [ev]"
  shows "notificationsFor (apply_event E ev d) i
     = notificationsFor d i
       @ (if currentState (apply_event E ev d) i = currentState d i then []
          else [(i, currentState (apply_event E ev d) i)])"
proof (cases ev)
  case (Output j c)
  then show ?thesis
    by (auto simp: notificationsFor_def onData_notifications onData_currentState Some_True_iff)
next
  case (UserInput j)
  then show ?thesis
    by (auto simp: notificationsFor_def onUserInput_notifications onUserInput_currentState)
next
  case (Removed j)
  with assms show ?thesis
    by (simp add: notificationsFor_def currentState_removeTerminal)
next
  case (Reconfig cfg)
  then show ?thesis by (simp add: notificationsFor_def)
next
  case Disposed
  with assms show ?thesis by simp
next
  case (Elapse n)
  then show ?thesis by (simp add: notificationsFor_def)
next
  case (TimerFires h)
  then show ?thesis by (simp add: changed_fire)
qed

lemma alternates_append:
  assumes "alternates b xs" and "alternates (last (b # xs)) ys"
  shows "alternates b (xs @ ys)"
  using assms by (induction xs arbitrary: b) auto

lemma lives_Cons: "lives i (ev # evs) = (lives i [ev] \<and> lives i evs)"
  by (cases ev) auto

lemma notifications_alternate:
  assumes "lives i evs"
  shows "\<exists>bs. map snd (notificationsFor (run E evs d) i) = map snd (notificationsFor d i) @ bs
             \<and> alternates (currentState d i) bs
             \<and> currentState (run E evs d) i = last (currentState d i # bs)"
  using assms
proof (induction evs arbitrary: d)
  case Nil
  show ?case by (simp add: run_Nil)
next
  case (Cons ev evs)
  let ?d = "apply_event E ev d"
  have l: "lives i [ev]" "lives i evs"
    using Cons.prems lives_Cons by blast+
  obtain bs where bs: "map snd (notificationsFor (run E evs ?d) i) = map snd (notificationsFor ?d i) @ bs"
      "alternates (currentState ?d i) bs"
      "currentState (run E evs ?d) i = last (currentState ?d i # bs)"
    using Cons.IH[OF l(2), of ?d] by blast
  let ?hd = "if currentState ?d i = currentState d i then [] else [currentState ?d i]"
  have h: "map snd (notificationsFor ?d i) = map snd (notificationsFor d i) @ ?hd"
    using changed_event[OF l(1), of E d] by simp
  have a: "alternates (currentState d i) ?hd" by simp
  have e: "last (currentState d i # ?hd) = currentState ?d i" by simp
  have "alternates (currentState d i) (?hd @ bs)"
    using a bs(2) e alternates_append[of "currentState d i" ?hd bs] by simp
  moreover have "last (currentState d i # ?hd @ bs) = last (currentState ?d i # bs)"
    by (cases bs) auto
  ultimately show ?case
    using bs h by (intro exI[of _ "?hd @ bs"]) (simp add: run_Cons)
qed

lemma second_evaluation_is_silent:
  assumes "reachable E d"
  shows "notifications (checkForPrompt E i (checkForPrompt E i d)) = notifications (checkForPrompt E i d)"
proof (cases "buffers d i")
  case None
  then show ?thesis by (simp add: checkForPrompt_def)
next
  case (Some b)
  let ?d = "checkForPrompt E i d"
  have p: "patterns ?d = patterns d"
    using reachable_stateless[OF assms] by (rule patterns_checkForPrompt)
  have b: "buffers ?d i = Some b"
    using Some by simp
  show ?thesis
    by (simp add: checkForPrompt_notifications[OF b] checkForPrompt_currentState[OF Some] p)
qed

text \<open>
  Claim C4: \<open>setWaitingState\<close>, through which every notification goes, emits the
  computed state exactly when it differs from the recorded state of the terminal (Idle
  when nothing is recorded) and records it. So every event that does not remove the
  session emits a notification for it exactly when its recorded state changes, carrying
  the new state; over every sequence of events within the lifetime of the session each
  notification differs from the one before it; and an evaluation that follows another
  directly emits nothing.
\<close>

theorem notification_iff_state_changes:
  assumes "lives i evs" and "reachable E d"
  shows "notifications (setWaitingState i b d)
           = notifications d @ (if currentState d i = b then [] else [(i, b)])
       \<and> currentState (setWaitingState i b d) i = b
       \<and> (\<forall>ev. lives i [ev] \<longrightarrow>
            notificationsFor (apply_event E ev d) i
              = notificationsFor d i
                @ (if currentState (apply_event E ev d) i = currentState d i then []
                   else [(i, currentState (apply_event E ev d) i)]))
       \<and> (\<exists>bs. map snd (notificationsFor (run E evs d) i) = map snd (notificationsFor d i) @ bs
                \<and> alternates (currentState d i) bs
                \<and> currentState (run E evs d) i = last (currentState d i # bs))
       \<and> notifications (checkForPrompt E i (checkForPrompt E i d))
           = notifications (checkForPrompt E i d)"
  using notifications_alternate[OF assms(1), of E d] changed_event[of i _ E d]
    second_evaluation_is_silent[OF assms(2), of i]
  by (simp add: notifications_setWaitingState)

text \<open>
  Claim C4 at the example detector: the timeout fires (Waiting), output hides the
  prompt (Idle), the new timeout fires (Waiting), and firing the spent handle again after
  another delay emits nothing: three notifications, each differing from the one before.
\<close>

theorem notification_iff_state_changes_witness:
  "lives ''t1'' [Elapse 500, TimerFires 0, Elapse 20, Output ''t1'' (js ''Password:''),
       Elapse 500, TimerFires 1, Elapse 500, TimerFires 1]
   \<and> notificationsFor (run example_engine
        [Elapse 500, TimerFires 0, Elapse 20, Output ''t1'' (js ''Password:''),
         Elapse 500, TimerFires 1, Elapse 500, TimerFires 1] example_prompted) ''t1''
       = [(''t1'', True), (''t1'', False), (''t1'', True)]
   \<and> (\<exists>bs. [True, False, True] = bs \<and> alternates False bs)"
proof -
  let ?evs = "[Elapse 500, TimerFires 0, Elapse 20, Output ''t1'' (js ''Password:''),
       Elapse 500, TimerFires 1, Elapse 500, TimerFires 1]"
  have l: "lives ''t1'' ?evs" by simp
  have n: "notificationsFor (run example_engine ?evs example_prompted) ''t1''
             = [(''t1'', True), (''t1'', False), (''t1'', True)]"
    by code_simp
  have e: "notificationsFor example_prompted ''t1'' = [] \<and> \<not> currentState example_prompted ''t1''"
    by code_simp
  show ?thesis
    using notification_iff_state_changes[where b = False, OF l example_reachable(1)] n e by simp
qed

subsection \<open>The timer bookkeeping\<close>

lemma timers_clearTimer: "timers (clearTimer i d) = AList.delete i (timers d)"
proof (cases "map_of (timers d) i")
  case None
  then have "i \<notin> fst ` set (timers d)"
    by (simp add: map_of_eq_None_iff)
  then show ?thesis
    using None by (simp add: clearTimer_def delete_id)
next
  case (Some h)
  then show ?thesis by (simp add: clearTimer_def)
qed

lemma scheduled_clearTimer:
  "scheduled (clearTimer i d)
     = (case map_of (timers d) i of
          None \<Rightarrow> scheduled d
        | Some h \<Rightarrow> filter (\<lambda>t. handle t \<noteq> h) (scheduled d))"
  by (simp add: clearTimer_def split: option.splits)


lemma tracked_handle:
  assumes "timers_ok d" and "t \<in> set (scheduled d)"
  shows "map_of (timers d) (target t) = Some (handle t)"
proof -
  have "(target t, handle t) \<in> set (timers d)"
    using assms by (simp add: timers_ok_def list_all_iff)
  moreover have "distinct (map fst (timers d))"
    using assms(1) by (simp add: timers_ok_def)
  ultimately show ?thesis by simp
qed

lemma pendingFor_clearTimer_same:
  assumes "timers_ok d"
  shows "pendingFor (clearTimer i d) i = []"
proof -
  have "\<And>t. t \<in> set (scheduled (clearTimer i d)) \<Longrightarrow> target t \<noteq> i"
  proof
    fix t
    assume t: "t \<in> set (scheduled (clearTimer i d))" and i: "target t = i"
    have s: "t \<in> set (scheduled d)"
      using t scheduled_clearTimer_subset by blast
    have "map_of (timers d) i = Some (handle t)"
      using tracked_handle[OF assms s] i by simp
    with t show False by (simp add: scheduled_clearTimer)
  qed
  then show ?thesis
    by (auto simp: pendingFor_def filter_empty_conv)
qed


lemma timers_ok_clearTimer:
  assumes "timers_ok d"
  shows "timers_ok (clearTimer i d)"
proof -
  have d1: "distinct (map fst (AList.delete i (timers d)))"
    using assms by (simp add: timers_ok_def distinct_delete)
  have d2: "distinct (map snd (AList.delete i (timers d)))"
    using assms by (simp add: timers_ok_def AList.delete_eq distinct_map_filter)
  have b: "list_all (\<lambda>p. snd p < nextHandle d) (AList.delete i (timers d))"
    using assms by (auto simp: timers_ok_def list_all_iff AList.delete_eq)
  have d3: "distinct (map handle (scheduled (clearTimer i d)))"
    using assms by (simp add: timers_ok_def scheduled_clearTimer distinct_map_filter split: option.splits)
  have "\<And>t. t \<in> set (scheduled (clearTimer i d)) \<Longrightarrow> (target t, handle t) \<in> set (AList.delete i (timers d))"
  proof -
    fix t
    assume t: "t \<in> set (scheduled (clearTimer i d))"
    have s: "t \<in> set (scheduled d)"
      using t scheduled_clearTimer_subset by blast
    have m: "(target t, handle t) \<in> set (timers d)"
      using assms s by (simp add: timers_ok_def list_all_iff)
    have "target t \<noteq> i"
    proof
      assume "target t = i"
      then have "t \<in> set (pendingFor (clearTimer i d) i)"
        using t by (simp add: pendingFor_def)
      then show False by (simp add: pendingFor_clearTimer_same[OF assms])
    qed
    with m show "(target t, handle t) \<in> set (AList.delete i (timers d))"
      by (auto simp: AList.delete_eq)
  qed
  then have tr: "list_all (\<lambda>t. (target t, handle t) \<in> set (AList.delete i (timers d))) (scheduled (clearTimer i d))"
    by (simp add: list_all_iff)
  show ?thesis
    using d1 d2 b d3 tr by (simp add: timers_ok_def timers_clearTimer)
qed

lemma update_fresh_key:
  assumes "i \<notin> fst ` set al"
  shows "AList.update i h al = al @ [(i, h)]"
  using assms by (induction al) auto

lemma delete_no_key: "i \<notin> fst ` set (AList.delete i al)"
  by (auto simp: AList.delete_eq)

lemma onData_timer_fields:
  assumes "enabled (config d)"
  shows "timers (onData i data d) = AList.delete i (timers d) @ [(i, nextHandle d)]"
    and "scheduled (onData i data d)
           = scheduled (clearTimer i d)
             @ [\<lparr>handle = nextHandle d, due = clock d + showDelay (config d), target = i\<rparr>]"
    and "nextHandle (onData i data d) = Suc (nextHandle d)"
proof -
  let ?d2 = "d\<lparr>buffers := (buffers d)(i \<mapsto> PromptBuffer_append data
                 (case buffers d i of None \<Rightarrow> PromptBuffer_default | Some b \<Rightarrow> b))\<rparr>"
  have t: "timers (clearTimer i ?d2) = AList.delete i (timers d)"
    by (simp add: timers_clearTimer)
  show "timers (onData i data d) = AList.delete i (timers d) @ [(i, nextHandle d)]"
    using assms t update_fresh_key[OF delete_no_key, of i "nextHandle d" "timers d"]
    by (simp add: onData_def Let_def setTimeout_def split: prod.splits)
  show "scheduled (onData i data d)
           = scheduled (clearTimer i d)
             @ [\<lparr>handle = nextHandle d, due = clock d + showDelay (config d), target = i\<rparr>]"
    using assms by (rule scheduled_onData)
  show "nextHandle (onData i data d) = Suc (nextHandle d)"
    using assms by (simp add: onData_def Let_def setTimeout_def split: prod.splits)
qed

lemma timers_ok_onData:
  assumes "timers_ok d"
  shows "timers_ok (onData i data d)"
proof (cases "enabled (config d)")
  case False
  with assms show ?thesis by (simp add: onData_def)
next
  case True
  let ?c = "clearTimer i d"
  have c: "timers_ok ?c"
    using assms by (rule timers_ok_clearTimer)
  have tc: "timers ?c = AList.delete i (timers d)"
    by (rule timers_clearTimer)
  have lt: "\<And>p. p \<in> set (timers ?c) \<Longrightarrow> snd p < nextHandle d"
    using c by (simp add: timers_ok_def list_all_iff)
  have hl: "\<And>t. t \<in> set (scheduled ?c) \<Longrightarrow> handle t < nextHandle d"
  proof -
    fix t
    assume "t \<in> set (scheduled ?c)"
    then have "(target t, handle t) \<in> set (timers ?c)"
      using c by (simp add: timers_ok_def list_all_iff)
    then show "handle t < nextHandle d"
      using lt by fastforce
  qed
  have k: "i \<notin> fst ` set (timers ?c)"
    unfolding tc by (rule delete_no_key)
  have f: "nextHandle d \<notin> snd ` set (timers ?c)"
    using lt by fastforce
  have g: "nextHandle d \<notin> handle ` set (scheduled ?c)"
    using hl by fastforce
  show ?thesis
    using c k f g lt
    by (auto simp: timers_ok_def onData_timer_fields[OF True] tc[symmetric] list_all_iff less_Suc_eq)
qed

lemma onUserInput_timer_fields [simp]:
  "timers (onUserInput i d) = timers (clearTimer i d)"
  "scheduled (onUserInput i d) = scheduled (clearTimer i d)"
  "nextHandle (onUserInput i d) = nextHandle d"
  by (simp_all add: onUserInput_def Let_def split: option.splits)

lemma removeTerminal_timer_fields [simp]:
  "timers (removeTerminal i d) = timers (clearTimer i d)"
  "scheduled (removeTerminal i d) = scheduled (clearTimer i d)"
  "nextHandle (removeTerminal i d) = nextHandle d"
  by (simp_all add: removeTerminal_def Let_def)

lemma updateConfig_timer_fields [simp]:
  "timers (updateConfig E cfg d) = timers d"
  "scheduled (updateConfig E cfg d) = scheduled d"
  "nextHandle (updateConfig E cfg d) = nextHandle d"
  by (simp_all add: updateConfig_def Let_def)

lemma dispose_timer_fields [simp]:
  "timers (dispose d) = []"
  "nextHandle (dispose d) = nextHandle d"
  by (simp_all add: dispose_def Let_def)

lemma scheduled_dispose:
  "scheduled (dispose d) = filter (\<lambda>t. handle t \<notin> snd ` set (timers d)) (scheduled d)"
  unfolding dispose_def Let_def by simp

lemma checkForPrompt_timer_fields [simp]:
  "timers (checkForPrompt E i d) = timers d"
  "scheduled (checkForPrompt E i d) = scheduled d"
  "nextHandle (checkForPrompt E i d) = nextHandle d"
  "config (checkForPrompt E i d) = config d"
  "clock (checkForPrompt E i d) = clock d"
  by (simp_all add: checkForPrompt_def Let_def split: option.splits prod.splits)

lemma fire_timer_fields:
  "timers (fire E h d) = timers d"
  "nextHandle (fire E h d) = nextHandle d"
  "config (fire E h d) = config d"
  "clock (fire E h d) = clock d"
  by (simp_all add: fire_def split: option.splits)

lemma scheduled_fire:
  "scheduled (fire E h d) = scheduled d
   \<or> scheduled (fire E h d) = filter (\<lambda>t. handle t \<noteq> h) (scheduled d)"
proof -
  consider "fire E h d = d"
    | t :: timeout where "fire E h d = checkForPrompt E (target t) (clearTimeout h d)"
    using fire_cases[of E h d] by blast
  then show ?thesis
  proof cases
    case 1
    then show ?thesis by simp
  next
    case 2
    then show ?thesis by simp
  qed
qed

lemma timers_ok_filter:
  assumes "timers_ok d" and "timers d' = timers d" and "nextHandle d' = nextHandle d"
    and "scheduled d' = filter P (scheduled d)"
  shows "timers_ok d'"
  using assms by (auto simp: timers_ok_def list_all_iff distinct_map_filter)

lemma timers_ok_dispose:
  assumes "timers_ok d"
  shows "timers_ok (dispose d)"
proof -
  have "\<And>t. t \<in> set (scheduled d) \<Longrightarrow> handle t \<in> snd ` set (timers d)"
    using assms by (force simp: timers_ok_def list_all_iff)
  then have "scheduled (dispose d) = []"
    by (auto simp: scheduled_dispose filter_empty_conv)
  then show ?thesis by (simp add: timers_ok_def)
qed

lemma timers_ok_same:
  assumes "timers_ok d" and "timers d' = timers d" and "scheduled d' = scheduled d"
    and "nextHandle d' = nextHandle d"
  shows "timers_ok d'"
  using assms by (simp add: timers_ok_def)

lemma timers_ok_fire:
  assumes "timers_ok d"
  shows "timers_ok (fire E h d)"
  using scheduled_fire[of E h d]
proof
  assume "scheduled (fire E h d) = scheduled d"
  with assms show ?thesis
    by (rule timers_ok_same[OF _ fire_timer_fields(1) _ fire_timer_fields(2)])
next
  assume "scheduled (fire E h d) = filter (\<lambda>t. handle t \<noteq> h) (scheduled d)"
  with assms show ?thesis
    by (rule timers_ok_filter[OF _ fire_timer_fields(1) fire_timer_fields(2)])
qed

lemma timers_ok_event:
  assumes "timers_ok d"
  shows "timers_ok (apply_event E ev d)"
proof (cases ev)
  case (Output i c)
  then show ?thesis using assms by (simp add: timers_ok_onData)
next
  case (UserInput i)
  have "timers_ok (onUserInput i d)"
    using timers_ok_clearTimer[OF assms, of i] by (rule timers_ok_same) simp_all
  with UserInput show ?thesis by simp
next
  case (Removed i)
  have "timers_ok (removeTerminal i d)"
    using timers_ok_clearTimer[OF assms, of i] by (rule timers_ok_same) simp_all
  with Removed show ?thesis by simp
next
  case (Reconfig cfg)
  have "timers_ok (updateConfig E cfg d)"
    using assms by (rule timers_ok_same) simp_all
  with Reconfig show ?thesis by simp
next
  case Disposed
  then show ?thesis using assms by (simp add: timers_ok_dispose)
next
  case (Elapse n)
  have "timers_ok (d\<lparr>clock := clock d + n\<rparr>)"
    using assms by (rule timers_ok_same) simp_all
  with Elapse show ?thesis by simp
next
  case (TimerFires h)
  then show ?thesis using assms by (simp add: timers_ok_fire)
qed

lemma reachable_timers_ok:
  assumes "reachable E d"
  shows "timers_ok d"
  using assms
proof (induction rule: reachable.induct)
  case (reachable_new cfg)
  show ?case by (simp add: timers_ok_def PromptDetector_new_def)
next
  case (reachable_step d ev)
  then show ?case by (simp add: timers_ok_event)
qed


subsection \<open>Evaluations and pending timeouts\<close>

lemma evaluations_frame [simp]:
  "evaluations (onData j c d) = evaluations d"
  "evaluations (onUserInput j d) = evaluations d"
  "evaluations (removeTerminal j d) = evaluations d"
  "evaluations (updateConfig E cfg d) = evaluations d"
  "evaluations (dispose d) = evaluations d"
  by (simp_all add: onData_def onUserInput_def removeTerminal_def updateConfig_def dispose_def
        setTimeout_def Let_def split: option.splits prod.splits)

lemma evaluations_checkForPrompt:
  "evaluations (checkForPrompt E j d) = evaluations d \<or> evaluations (checkForPrompt E j d) = evaluations d @ [j]"
  by (simp add: checkForPrompt_def Let_def split: option.splits prod.splits)

lemma config_frame [simp]:
  "config (onData j c d) = config d"
  "config (onUserInput j d) = config d"
  "config (removeTerminal j d) = config d"
  by (simp_all add: onData_def onUserInput_def removeTerminal_def setTimeout_def Let_def
        split: option.splits prod.splits)

lemma clock_frame [simp]:
  "clock (onData j c d) = clock d"
  "clock (onUserInput j d) = clock d"
  "clock (removeTerminal j d) = clock d"
  by (simp_all add: onData_def onUserInput_def removeTerminal_def setTimeout_def Let_def
        split: option.splits prod.splits)





lemma pendingFor_filtered:
  assumes "scheduled d' = filter P (scheduled d)"
  shows "pendingFor d' i = filter P (pendingFor d i)"
  using assms by (auto simp: pendingFor_def intro: filter_cong)

lemma scheduled_clearTimer_filter: "\<exists>P. scheduled (clearTimer j d) = filter P (scheduled d)"
proof (cases "map_of (timers d) j")
  case None
  then have "scheduled (clearTimer j d) = filter (\<lambda>t. True) (scheduled d)"
    by (simp add: scheduled_clearTimer)
  then show ?thesis by blast
next
  case (Some h)
  then have "scheduled (clearTimer j d) = filter (\<lambda>t. handle t \<noteq> h) (scheduled d)"
    by (simp add: scheduled_clearTimer)
  then show ?thesis by blast
qed

lemma pending_shrinks:
  assumes "\<exists>P. scheduled d' = filter P (scheduled d)"
  shows "length (pendingFor d' i) \<le> length (pendingFor d i)"
proof -
  obtain P where "scheduled d' = filter P (scheduled d)"
    using assms by blast
  then have "pendingFor d' i = filter P (pendingFor d i)"
    by (rule pendingFor_filtered)
  then show ?thesis by simp
qed

lemma fire_effect:
  "(evaluationsOf (fire E h d) i = evaluationsOf d i \<and> pendingFor (fire E h d) i = pendingFor d i)
   \<or> (\<exists>t. t \<in> set (scheduled d) \<and> handle t = h \<and> due t \<le> clock d \<and> target t \<noteq> i
          \<and> evaluationsOf (fire E h d) i = evaluationsOf d i
          \<and> pendingFor (fire E h d) i = filter (\<lambda>t. handle t \<noteq> h) (pendingFor d i))
   \<or> (\<exists>t. t \<in> set (pendingFor d i) \<and> handle t = h \<and> due t \<le> clock d
          \<and> evaluationsOf (fire E h d) i \<le> evaluationsOf d i + 1
          \<and> pendingFor (fire E h d) i = filter (\<lambda>t. handle t \<noteq> h) (pendingFor d i))"
proof -
  consider "fire E h d = d"
    | t :: timeout where "t \<in> set (scheduled d)" "handle t = h" "due t \<le> clock d"
        "fire E h d = checkForPrompt E (target t) (clearTimeout h d)"
    using fire_cases[of E h d] by blast
  then show ?thesis
  proof cases
    case 1
    then show ?thesis by simp
  next
    case 2
    have p: "pendingFor (fire E h d) i = filter (\<lambda>t. handle t \<noteq> h) (pendingFor d i)"
      by (rule pendingFor_filtered) (simp add: 2(4))
    have e: "evaluations (fire E h d) = evaluations d \<or> evaluations (fire E h d) = evaluations d @ [target t]"
      using evaluations_checkForPrompt[of E "target t" "clearTimeout h d"] by (simp add: 2(4))
    show ?thesis
    proof (cases "target t = i")
      case True
      have "t \<in> set (pendingFor d i)"
        using 2(1) True by (simp add: pendingFor_def)
      moreover have "evaluationsOf (fire E h d) i \<le> evaluationsOf d i + 1"
        using e by (auto simp: evaluationsOf_def)
      ultimately show ?thesis using 2(2,3) p by blast
    next
      case False
      have "evaluationsOf (fire E h d) i = evaluationsOf d i"
        using e False by (auto simp: evaluationsOf_def)
      then show ?thesis using 2(1,2,3) False p by blast
    qed
  qed
qed

lemma potential_fire:
  "evaluationsOf (fire E h d) i + length (pendingFor (fire E h d) i)
     \<le> evaluationsOf d i + length (pendingFor d i)"
proof -
  consider
    (same) "evaluationsOf (fire E h d) i = evaluationsOf d i" "pendingFor (fire E h d) i = pendingFor d i"
  | (other) "evaluationsOf (fire E h d) i = evaluationsOf d i"
      "pendingFor (fire E h d) i = filter (\<lambda>t. handle t \<noteq> h) (pendingFor d i)"
  | (mine) t :: timeout where "t \<in> set (pendingFor d i)" "handle t = h"
      "evaluationsOf (fire E h d) i \<le> evaluationsOf d i + 1"
      "pendingFor (fire E h d) i = filter (\<lambda>t. handle t \<noteq> h) (pendingFor d i)"
    using fire_effect[of E h d i] by blast
  then show ?thesis
  proof cases
    case same
    then show ?thesis by simp
  next
    case other
    then show ?thesis by simp
  next
    case mine
    have "length (filter (\<lambda>t. handle t \<noteq> h) (pendingFor d i)) < length (pendingFor d i)"
      using mine(1,2) by (intro length_filter_less[of t]) simp_all
    with mine(3,4) show ?thesis by simp
  qed
qed

lemma potential_event:
  assumes "(\<forall>c. ev \<noteq> Output i c) \<or> \<not> enabled (config d)"
  shows "evaluationsOf (apply_event E ev d) i + length (pendingFor (apply_event E ev d) i)
           \<le> evaluationsOf d i + length (pendingFor d i)"
proof (cases ev)
  case (Output j c)
  show ?thesis
  proof (cases "enabled (config d)")
    case False
    with Output show ?thesis by (simp add: onData_def)
  next
    case True
    with assms Output have ji: "j \<noteq> i" by simp
    obtain P where "scheduled (clearTimer j d) = filter P (scheduled d)"
      using scheduled_clearTimer_filter by blast
    then have "pendingFor (onData j c d) i = filter P (pendingFor d i)"
      using ji by (auto simp: pendingFor_def onData_timer_fields[OF True] intro: filter_cong)
    then have "length (pendingFor (onData j c d) i) \<le> length (pendingFor d i)"
      by simp
    with Output show ?thesis by (simp add: evaluationsOf_def)
  qed
next
  case (UserInput j)
  have "length (pendingFor (onUserInput j d) i) \<le> length (pendingFor d i)"
    using scheduled_clearTimer_filter[of j d] by (intro pending_shrinks) simp
  with UserInput show ?thesis by (simp add: evaluationsOf_def)
next
  case (Removed j)
  have "length (pendingFor (removeTerminal j d) i) \<le> length (pendingFor d i)"
    using scheduled_clearTimer_filter[of j d] by (intro pending_shrinks) simp
  with Removed show ?thesis by (simp add: evaluationsOf_def)
next
  case (Reconfig cfg)
  then show ?thesis by (simp add: evaluationsOf_def pendingFor_def)
next
  case Disposed
  have "length (pendingFor (dispose d) i) \<le> length (pendingFor d i)"
    using scheduled_dispose[of d] by (intro pending_shrinks) blast
  with Disposed show ?thesis by (simp add: evaluationsOf_def)
next
  case (Elapse n)
  then show ?thesis by (simp add: evaluationsOf_def pendingFor_def)
next
  case (TimerFires h)
  then show ?thesis by (simp add: potential_fire)
qed

lemma potential_quiet:
  assumes "no_output i evs"
  shows "evaluationsOf (run E evs d) i + length (pendingFor (run E evs d) i)
           \<le> evaluationsOf d i + length (pendingFor d i)"
  using assms
proof (induction evs arbitrary: d)
  case Nil
  show ?case by (simp add: run_Nil)
next
  case (Cons ev evs)
  have a: "(\<forall>c. ev \<noteq> Output i c)" and b: "no_output i evs"
    using Cons.prems by (cases ev; auto)+
  have "evaluationsOf (run E evs (apply_event E ev d)) i + length (pendingFor (run E evs (apply_event E ev d)) i)
          \<le> evaluationsOf (apply_event E ev d) i + length (pendingFor (apply_event E ev d) i)"
    using b by (rule Cons.IH)
  also have "\<dots> \<le> evaluationsOf d i + length (pendingFor d i)"
    using a by (intro potential_event) simp
  finally show ?case by (simp add: run_Cons)
qed





subsection \<open>After removal\<close>

lemma fire_gone:
  assumes "buffers d i = None" and "waitingState d i = None"
  shows "buffers (fire E h d) i = None \<and> waitingState (fire E h d) i = None
       \<and> notificationsFor (fire E h d) i = notificationsFor d i
       \<and> evaluationsOf (fire E h d) i = evaluationsOf d i"
proof -
  consider "fire E h d = d"
    | t :: timeout where "fire E h d = checkForPrompt E (target t) (clearTimeout h d)"
    using fire_cases[of E h d] by blast
  then show ?thesis
  proof cases
    case 1
    with assms show ?thesis by simp
  next
    case 2
    show ?thesis
    proof (cases "target t = i")
      case True
      have "checkForPrompt E i (clearTimeout h d) = clearTimeout h d"
        using assms(1) by (simp add: checkForPrompt_def)
      with 2 True assms show ?thesis
        by (simp add: notificationsFor_def evaluationsOf_def)
    next
      case False
      then show ?thesis
        using assms
        by (auto simp: 2 checkForPrompt_def Let_def setWaitingState_def notificationsFor_def
              evaluationsOf_def split: option.splits prod.splits)
    qed
  qed
qed

lemma gone_event:
  assumes "no_output i [ev]" and "buffers d i = None" and "waitingState d i = None"
  shows "buffers (apply_event E ev d) i = None \<and> waitingState (apply_event E ev d) i = None
       \<and> notificationsFor (apply_event E ev d) i = notificationsFor d i
       \<and> evaluationsOf (apply_event E ev d) i = evaluationsOf d i"
proof (cases ev)
  case (Output j c)
  with assms(1) have "j \<noteq> i" by simp
  then show ?thesis
    using assms(2,3) Output
    by (auto simp: onData_def Let_def setTimeout_def setWaitingState_def notificationsFor_def
          evaluationsOf_def split: prod.splits)
next
  case (UserInput j)
  then show ?thesis
    using assms(2,3)
    by (auto simp: onUserInput_def Let_def setWaitingState_def currentState_def
          notificationsFor_def evaluationsOf_def split: option.splits)
next
  case (Removed j)
  then show ?thesis
    using assms(2,3)
    by (simp add: removeTerminal_def Let_def notificationsFor_def evaluationsOf_def)
next
  case (Reconfig cfg)
  then show ?thesis
    using assms(2,3) by (simp add: updateConfig_def Let_def notificationsFor_def evaluationsOf_def)
next
  case Disposed
  then show ?thesis
    by (simp add: dispose_def Let_def notificationsFor_def evaluationsOf_def)
next
  case (Elapse n)
  then show ?thesis
    using assms(2,3) by (simp add: notificationsFor_def evaluationsOf_def)
next
  case (TimerFires h)
  then show ?thesis
    using fire_gone[OF assms(2,3), of E h] by simp
qed

lemma no_output_Cons: "no_output i (ev # evs) = (no_output i [ev] \<and> no_output i evs)"
  by (cases ev) auto

lemma gone_run:
  assumes "no_output i evs" and "buffers d i = None" and "waitingState d i = None"
  shows "notificationsFor (run E evs d) i = notificationsFor d i
       \<and> evaluationsOf (run E evs d) i = evaluationsOf d i"
  using assms
proof (induction evs arbitrary: d)
  case Nil
  show ?case by (simp add: run_Nil)
next
  case (Cons ev evs)
  have n: "no_output i [ev]" "no_output i evs"
    using Cons.prems(1) no_output_Cons by blast+
  note g = gone_event[OF n(1) Cons.prems(2,3), of E]
  have "notificationsFor (run E evs (apply_event E ev d)) i = notificationsFor (apply_event E ev d) i
       \<and> evaluationsOf (run E evs (apply_event E ev d)) i = evaluationsOf (apply_event E ev d) i"
    using n(2) g by (intro Cons.IH) simp_all
  with g show ?case by (simp add: run_Cons)
qed

text \<open>
  Claim C5, as stated, at the example detector: \<open>t1\<close> is removed, then \<open>onData\<close> is
  called for \<open>t1\<close> with \<open>Password:\<close>, which starts a new buffer and a new timeout; when
  that fires, a notification for \<open>t1\<close> is emitted after the removal.
\<close>

theorem output_after_removal_notifies:
  "notificationsFor (removeTerminal ''t1'' example_prompted) ''t1'' = []
   \<and> notificationsFor
        (run example_engine [Output ''t1'' (js ''Password:''), Elapse 500, TimerFires 1]
           (removeTerminal ''t1'' example_prompted)) ''t1'' = [(''t1'', True)]"
  by code_simp

text \<open>
  Claim C5, amended: after \<open>removeTerminal(id)\<close>, as long as \<open>onData\<close> is not called
  again for that id, no notification is emitted for the id and its patterns are never
  evaluated, whatever else happens (time passing, timeouts firing, user input, other
  terminals, reconfiguration); and in a reachable state the removal leaves no timeout for
  the id in the queue, so a timeout that was pending at the removal never fires.
\<close>

theorem removed_terminal_stays_silent:
  assumes "no_output i evs"
  shows "notificationsFor (run E evs (removeTerminal i d)) i = notificationsFor d i
       \<and> evaluationsOf (run E evs (removeTerminal i d)) i = evaluationsOf d i
       \<and> (reachable E d \<longrightarrow> pendingFor (removeTerminal i d) i = [])"
proof -
  have "buffers (removeTerminal i d) i = None" "waitingState (removeTerminal i d) i = None"
    by (simp_all add: removeTerminal_def Let_def)
  then have "notificationsFor (run E evs (removeTerminal i d)) i = notificationsFor (removeTerminal i d) i
       \<and> evaluationsOf (run E evs (removeTerminal i d)) i = evaluationsOf (removeTerminal i d) i"
    using assms by (intro gone_run) simp_all
  moreover have "reachable E d \<Longrightarrow> pendingFor (removeTerminal i d) i = []"
    using pendingFor_clearTimer_same[OF reachable_timers_ok, of E d i] by (simp add: pendingFor_def)
  ultimately show ?thesis
    by (auto simp: notificationsFor_def evaluationsOf_def)
qed

text \<open>
  Claim C5, amended, at the example detector with the timeout of \<open>t1\<close> pending: after
  the removal the queue holds nothing for \<open>t1\<close>, and the delay passing, the old handle
  firing and user input emit nothing.
\<close>

theorem removed_terminal_stays_silent_witness:
  "no_output ''t1'' [Elapse 500, TimerFires 0, UserInput ''t1'', Elapse 500]
   \<and> pendingFor example_prompted ''t1'' = [\<lparr>handle = 0, due = 500, target = ''t1''\<rparr>]
   \<and> notificationsFor (run example_engine [Elapse 500, TimerFires 0, UserInput ''t1'', Elapse 500]
        (removeTerminal ''t1'' example_prompted)) ''t1'' = []
   \<and> pendingFor (removeTerminal ''t1'' example_prompted) ''t1'' = []"
proof -
  have n: "no_output ''t1'' [Elapse 500, TimerFires 0, UserInput ''t1'', Elapse 500]" by simp
  have p: "pendingFor example_prompted ''t1'' = [\<lparr>handle = 0, due = 500, target = ''t1''\<rparr>]"
    by code_simp
  have e: "notificationsFor example_prompted ''t1'' = []"
    by code_simp
  show ?thesis
    using removed_terminal_stays_silent[where E = example_engine and d = example_prompted, OF n]
      example_reachable(1) p e
    by simp
qed

end
